theory Spec2Isabelle
  imports Main "HOL-Library.AList"
begin

section \<open>Chronicle AI server: shared vocabulary\<close>

text \<open>
  The server (\<^verbatim>\<open>server/dist/index.js\<close>) talks to three outside parties: the JSON-RPC
  provider, the ChronicleRegistry contract and the Gaia completion endpoint. None of them
  is part of the repository, so every call to them is an input of the model: a value of
  \<open>error + 'a\<close>, where \<open>Inl msg\<close> is a rejected promise (a thrown error carrying
  \<open>msg\<close>) and \<open>Inr v\<close> the resolved value.

  Block numbers and timestamps are JavaScript numbers in the source; they are modelled as
  unbounded integers and naturals, which is exact below \<open>2^53\<close>. The point counters
  arrive as big integers and are converted, with the rounding that has.
  Console output is not modelled.
\<close>

type_synonym error = string
type_synonym address = string
type_synonym hash = string

text \<open>\<^verbatim>\<open>ethers.ZeroAddress\<close>\<close>

definition ZeroAddress :: address where
  "ZeroAddress = ''0x0000000000000000000000000000000000000000''"

text \<open>JavaScript truthiness of a string: every string but the empty one.\<close>

definition truthy :: "string \<Rightarrow> bool" where
  "truthy s = (s \<noteq> [])"

section \<open>Confirmation waiter\<close>

text \<open>
  What one run of the orchestration does to the outside world, in order. The waiter
  contributes \<open>ReadPending k\<close> (the call \<^verbatim>\<open>contract.pendingRequests(txHash)\<close> of attempt
  \<open>k\<close>) and \<open>Delay ms\<close> (the awaited \<^verbatim>\<open>setTimeout(resolve, delayMs)\<close>).
\<close>

datatype action =
    ReadPending nat
  | Delay nat
  | GetTransaction
  | AICall
  | AddChronicle hash string
  | WaitReceipt

text \<open>
  \<^verbatim>\<open>
  async function waitForPendingRequest(txHash, maxAttempts = 60, delayMs = 2000) {
      for (let attempt = 1; attempt <= maxAttempts; attempt++) {
          try {
              const pendingRequester = await contract.pendingRequests(txHash);
              if (pendingRequester && pendingRequester !== ethers.ZeroAddress) {
                  return true;
              }
              await new Promise(resolve => setTimeout(resolve, delayMs));
          }
          catch (error) { console.error(...); }
      }
      return false;
  }
  \<close>
  \<open>reads k\<close> is what the read of attempt \<open>k\<close> yields. The delay is inside the
  \<^verbatim>\<open>try\<close>, after the read: a read that throws jumps to the \<^verbatim>\<open>catch\<close> and on to the
  next attempt.
\<close>

function waitFrom ::
  "(nat \<Rightarrow> error + address) \<Rightarrow> nat \<Rightarrow> nat \<Rightarrow> nat \<Rightarrow> bool \<times> action list" where
  "waitFrom reads maxAttempts delayMs attempt =
     (if attempt \<le> maxAttempts then
        (case reads attempt of
           Inl err \<Rightarrow>
             (let (r, tr) = waitFrom reads maxAttempts delayMs (attempt + 1)
              in (r, ReadPending attempt # tr))
         | Inr pendingRequester \<Rightarrow>
             if truthy pendingRequester \<and> pendingRequester \<noteq> ZeroAddress
             then (True, [ReadPending attempt])
             else (let (r, tr) = waitFrom reads maxAttempts delayMs (attempt + 1)
                   in (r, ReadPending attempt # Delay delayMs # tr)))
      else (False, []))"
  by pat_completeness auto
termination
  by (relation "measure (\<lambda>(reads, maxAttempts, delayMs, attempt). maxAttempts + 1 - attempt)") auto

declare waitFrom.simps [simp del]

definition waitForPendingRequest ::
  "(nat \<Rightarrow> error + address) \<Rightarrow> nat \<Rightarrow> nat \<Rightarrow> bool \<times> action list" where
  "waitForPendingRequest reads maxAttempts delayMs = waitFrom reads maxAttempts delayMs 1"

text \<open>Reading a trace: the attempts made, the delay periods run, the time slept.\<close>

definition attempts :: "action list \<Rightarrow> nat list" where
  "attempts tr = concat (map (\<lambda>a. case a of ReadPending k \<Rightarrow> [k] | _ \<Rightarrow> []) tr)"

definition delays :: "action list \<Rightarrow> nat list" where
  "delays tr = concat (map (\<lambda>a. case a of Delay ms \<Rightarrow> [ms] | _ \<Rightarrow> []) tr)"

definition sleptMs :: "action list \<Rightarrow> nat" where
  "sleptMs tr = sum_list (delays tr)"

text \<open>Attempt \<open>k\<close> observes a non-zero pending requester.\<close>

definition observes :: "(nat \<Rightarrow> error + address) \<Rightarrow> nat \<Rightarrow> bool" where
  "observes reads k =
     (case reads k of Inl err \<Rightarrow> False | Inr p \<Rightarrow> truthy p \<and> p \<noteq> ZeroAddress)"

text \<open>
  The delay of attempt \<open>k\<close> runs exactly when its read returned and did not show a
  requester. The whole trace of a run is determined by the attempts it made.
\<close>

definition delayAfter :: "(nat \<Rightarrow> error + address) \<Rightarrow> nat \<Rightarrow> bool" where
  "delayAfter reads k =
     (case reads k of Inl err \<Rightarrow> False | Inr p \<Rightarrow> \<not> (truthy p \<and> p \<noteq> ZeroAddress))"

text \<open>Sample read sequences, used to run the waiter on concrete inputs.\<close>

definition requesterA1 :: address where
  "requesterA1 = ''0x00000000000000000000000000000000000000A1''"

definition readsThrowThenHit :: "nat \<Rightarrow> error + address" where
  "readsThrowThenHit k =
     (if k = 3 then Inr requesterA1 else if k = 2 then Inl ''timeout'' else Inr ZeroAddress)"

definition readsHitAtThree :: "nat \<Rightarrow> error + address" where
  "readsHitAtThree k = (if k = 3 then Inr requesterA1 else Inr ZeroAddress)"

definition readsMixedMiss :: "nat \<Rightarrow> error + address" where
  "readsMixedMiss k = (if even k then Inl ''timeout'' else Inr ZeroAddress)"

definition readsAlwaysThrow :: "nat \<Rightarrow> error + address" where
  "readsAlwaysThrow k = Inl ''network error''"

section \<open>Narrative generator\<close>

text \<open>
  The answer of the completion endpoint, as far as \<^verbatim>\<open>analyzeTransactionWithAI\<close> looks at
  it: \<^verbatim>\<open>response.ok\<close>, \<^verbatim>\<open>response.statusText\<close>, and the parsed body with the path
  \<^verbatim>\<open>data.choices[0].message.content\<close>, where every step of the path may be missing.
  \<^verbatim>\<open>response.json()\<close> rejects on a body that is not JSON.
\<close>

datatype chat_message = ChatMessage (content: "string option")
datatype choice = Choice (message: "chat_message option")
datatype completion = Completion (choices: "choice list option")

record http_response =
  ok :: bool
  statusText :: string
  json :: "error + completion"

text \<open>\<^verbatim>\<open>String.prototype.trim\<close> on ASCII white space.\<close>

definition isSpace :: "char \<Rightarrow> bool" where
  "isSpace c = (c \<in> set [CHR '' '', CHR 0x09, CHR 0x0A, CHR 0x0B, CHR 0x0C, CHR 0x0D])"

definition trim :: "string \<Rightarrow> string" where
  "trim s = rev (dropWhile isSpace (rev (dropWhile isSpace s)))"

text \<open>
  \<^verbatim>\<open>
  const response = await fetch(`${GAIA_NODE_URL}/chat/completions`, {...});
  if (!response.ok) {
      throw new Error(`Gaia API error: ${response.statusText}`);
  }
  const data = await response.json();
  if (!data.choices || !data.choices[0] || !data.choices[0].message) {
      throw new Error('Invalid response from Gaia API');
  }
  return data.choices[0].message.content.trim();
  \<close>
  The argument is the outcome of the \<^verbatim>\<open>fetch\<close>; the prompt sent with it is built from
  the transaction and has no influence on the control flow. A \<^verbatim>\<open>message\<close> without a
  string \<^verbatim>\<open>content\<close> makes \<^verbatim>\<open>.trim()\<close> throw a TypeError.
\<close>

definition analyzeTransactionWithAI :: "error + http_response \<Rightarrow> error + string" where
  "analyzeTransactionWithAI fetched =
     (case fetched of
        Inl err \<Rightarrow> Inl err
      | Inr response \<Rightarrow>
          if \<not> ok response then Inl (''Gaia API error: '' @ statusText response)
          else (case json response of
                  Inl err \<Rightarrow> Inl err
                | Inr data \<Rightarrow>
                    (case choices data of
                       None \<Rightarrow> Inl ''Invalid response from Gaia API''
                     | Some [] \<Rightarrow> Inl ''Invalid response from Gaia API''
                     | Some (c # cs) \<Rightarrow>
                         (case message c of
                            None \<Rightarrow> Inl ''Invalid response from Gaia API''
                          | Some m \<Rightarrow>
                              (case content m of
                                 None \<Rightarrow> Inl ''TypeError: Cannot read properties of undefined''
                               | Some text \<Rightarrow> Inr (trim text))))))"

section \<open>Analysis orchestrator\<close>

text \<open>\<^verbatim>\<open>ethers.isHexString(value, length)\<close>: \<^verbatim>\<open>0x\<close>, hex digits, \<open>2 + 2 * length\<close> characters.\<close>

definition isHexDigit :: "char \<Rightarrow> bool" where
  "isHexDigit c = (c \<in> set ''0123456789abcdefABCDEF'')"

definition isHexString :: "string \<Rightarrow> nat \<Rightarrow> bool" where
  "isHexString v len =
     (take 2 v = ''0x'' \<and> list_all isHexDigit (drop 2 v) \<and> length v = 2 + 2 * len)"

text \<open>The fields of the transaction the prompt is built from.\<close>

record transaction =
  tx_hash :: hash
  tx_from :: "address option"
  tx_to :: "address option"
  tx_value :: nat
  tx_blockNumber :: "nat option"
  tx_gasLimit :: nat

text \<open>
  What the outside world answers to one invocation of the handler:
  \<^verbatim>\<open>contract.pendingRequests(txHash)\<close> at attempt \<open>k\<close>, \<^verbatim>\<open>provider.getTransaction(txHash)\<close>
  (\<open>None\<close> is \<^verbatim>\<open>null\<close>), the completion \<^verbatim>\<open>fetch\<close>, \<^verbatim>\<open>contract.addChronicle(txHash, narrative)\<close>
  (resolving to the hash of the submitted transaction) and \<^verbatim>\<open>txResponse.wait()\<close>.
\<close>

record analysis_env =
  pendingRequests :: "nat \<Rightarrow> error + address"
  getTransaction :: "error + transaction option"
  fetchCompletion :: "transaction \<Rightarrow> error + http_response"
  addChronicle :: "string \<Rightarrow> error + hash"
  waitReceipt :: "error + unit"

text \<open>\<^verbatim>\<open>res.status(n).json({...})\<close>: the status and the fields of the JSON object.\<close>

record response =
  status :: nat
  body :: "(string \<times> string) list"

definition internalError :: "error \<Rightarrow> response" where
  "internalError err =
     \<lparr>status = 500,
      body = [(''message'', ''An internal server error occurred.''), (''error'', err)]\<rparr>"

text \<open>
  \<^verbatim>\<open>
  app.post('/api/analyze-transaction', async (req, res) => {
      const { txHash } = req.body;
      if (!txHash || !ethers.isHexString(txHash, 32)) {
          return res.status(400).json({ message: 'Invalid transaction hash.' });
      }
      try {
          const hasPendingRequest = await waitForPendingRequest(txHash, 60, 2000);
          if (!hasPendingRequest) {
              return res.status(400).json({ message: '...', error: 'PENDING_REQUEST_NOT_FOUND' });
          }
          const tx = await provider.getTransaction(txHash);
          if (!tx) {
              return res.status(404).json({ message: 'Transaction not found on Somnia network.' });
          }
          const narrative = await analyzeTransactionWithAI(tx);
          const txResponse = await contract.addChronicle(txHash, narrative);
          await txResponse.wait();
          res.status(200).json({ message: 'Analysis complete!', narrative,
                                 chronicleTxHash: txResponse.hash });
      }
      catch (error) {
          res.status(500).json({ message: 'An internal server error occurred.',
                                 error: error.message });
      }
  });
  \<close>
  The handler has no state of its own: its reply and its trace are a function of the
  hash and of the answers it gets.
\<close>

definition analyzeTransaction :: "analysis_env \<Rightarrow> hash \<Rightarrow> response \<times> action list" where
  "analyzeTransaction env txHash =
     (if \<not> truthy txHash \<or> \<not> isHexString txHash 32 then
        (\<lparr>status = 400, body = [(''message'', ''Invalid transaction hash.'')]\<rparr>, [])
      else
        (case waitForPendingRequest (pendingRequests env) 60 2000 of
           (hasPendingRequest, polled) \<Rightarrow>
             if \<not> hasPendingRequest then
               (\<lparr>status = 400,
                 body = [(''message'', ''No pending request found. Please submit a chronicle request from the UI first.''),
                         (''error'', ''PENDING_REQUEST_NOT_FOUND'')]\<rparr>, polled)
             else
               (case getTransaction env of
                  Inl err \<Rightarrow> (internalError err, polled @ [GetTransaction])
                | Inr None \<Rightarrow>
                    (\<lparr>status = 404,
                      body = [(''message'', ''Transaction not found on Somnia network.'')]\<rparr>,
                     polled @ [GetTransaction])
                | Inr (Some tx) \<Rightarrow>
                    (case analyzeTransactionWithAI (fetchCompletion env tx) of
                       Inl err \<Rightarrow> (internalError err, polled @ [GetTransaction, AICall])
                     | Inr narrative \<Rightarrow>
                         (case addChronicle env narrative of
                            Inl err \<Rightarrow>
                              (internalError err,
                               polled @ [GetTransaction, AICall, AddChronicle txHash narrative])
                          | Inr chronicleTxHash \<Rightarrow>
                              (case waitReceipt env of
                                 Inl err \<Rightarrow>
                                   (internalError err,
                                    polled @ [GetTransaction, AICall,
                                              AddChronicle txHash narrative, WaitReceipt])
                               | Inr u \<Rightarrow>
                                   (\<lparr>status = 200,
                                     body = [(''message'', ''Analysis complete!''),
                                             (''narrative'', narrative),
                                             (''chronicleTxHash'', chronicleTxHash)]\<rparr>,
                                    polled @ [GetTransaction, AICall,
                                              AddChronicle txHash narrative, WaitReceipt])))))))"

text \<open>Counting the calls of a trace.\<close>

definition aiCalls :: "action list \<Rightarrow> nat" where
  "aiCalls tr = length (filter (\<lambda>a. a = AICall) tr)"

definition isCommit :: "action \<Rightarrow> bool" where
  "isCommit a = (case a of AddChronicle h n \<Rightarrow> True | _ \<Rightarrow> False)"

definition commitCalls :: "action list \<Rightarrow> nat" where
  "commitCalls tr = length (filter isCommit tr)"

section \<open>Client trigger\<close>

text \<open>
  The client's \<^verbatim>\<open>analyzeWithBackend\<close> (\<^verbatim>\<open>frontend/src/App.tsx\<close>), as the list of what it
  does: the state setters it calls and the one request it may post.
  \<^verbatim>\<open>
  const analyzeWithBackend = async () => {
    if (hasAnalyzed) return;
    setHasAnalyzed(true);
    setStatus('Waiting for your request to be confirmed on-chain, then analyzing with AI...');
    try {
      const response = await fetch(`.../api/analyze-transaction`, { method: 'POST', ... });
      const data = await response.json();
      if (!response.ok) {
        if (data.error === 'PENDING_REQUEST_NOT_FOUND') {
          throw new Error('Your chronicle request transaction was not confirmed. Please try again.');
        }
        throw new Error(data.message || 'Failed to analyze transaction');
      }
      setNarrative(data.narrative);
      setStatus('Analysis complete!');
      setTimeout(() => { fetchLeaderboard(); fetchChronicles(); }, 2000);
    } catch (error) {
      setNarrative(error.message || 'An error occurred during analysis.');
      setStatus('Error during analysis');
    } finally {
      setIsLoading(false);
    }
  };
  \<close>
  \<open>hasAnalyzed\<close> is the value of that state variable in the render whose closure is
  called; \<open>fetched\<close> is the outcome of the request (\<open>Inl\<close> when \<^verbatim>\<open>fetch\<close> or
  \<^verbatim>\<open>response.json()\<close> rejects).
\<close>

datatype ui_effect =
    SetHasAnalyzed bool
  | SetStatus string
  | PostAnalyzeTransaction hash
  | SetNarrative "string option"
  | RefreshLists
  | SetIsLoading bool

definition orElse :: "string \<Rightarrow> string \<Rightarrow> string" where
  "orElse s fallback = (if truthy s then s else fallback)"

definition analysisFailed :: "string \<Rightarrow> ui_effect list" where
  "analysisFailed msg =
     [SetNarrative (Some (orElse msg ''An error occurred during analysis.'')),
      SetStatus ''Error during analysis'']"

definition analyzeWithBackend :: "bool \<Rightarrow> hash \<Rightarrow> error + response \<Rightarrow> ui_effect list" where
  "analyzeWithBackend hasAnalyzed txHash fetched =
     (if hasAnalyzed then []
      else
        [SetHasAnalyzed True,
         SetStatus ''Waiting for your request to be confirmed on-chain, then analyzing with AI...'',
         PostAnalyzeTransaction txHash] @
        (case fetched of
           Inl err \<Rightarrow> analysisFailed err
         | Inr response \<Rightarrow>
             if \<not> (200 \<le> status response \<and> status response \<le> 299) then
               (if map_of (body response) ''error'' = Some ''PENDING_REQUEST_NOT_FOUND''
                then analysisFailed
                       ''Your chronicle request transaction was not confirmed. Please try again.''
                else analysisFailed
                       (orElse (case map_of (body response) ''message'' of
                                  None \<Rightarrow> '''' | Some m \<Rightarrow> m)
                               ''Failed to analyze transaction''))
             else
               [SetNarrative (map_of (body response) ''narrative''),
                SetStatus ''Analysis complete!'',
                RefreshLists]) @
        [SetIsLoading False])"

definition posts :: "ui_effect list \<Rightarrow> nat" where
  "posts es = length (filter (\<lambda>e. case e of PostAnalyzeTransaction h \<Rightarrow> True | _ \<Rightarrow> False) es)"

section \<open>Sample invocations\<close>

definition sampleHash :: hash where
  "sampleHash = ''0x5c504ed432cb51138bcf09aa5e8a410dd4a1e204ef84bfed1be16dfba1b22060''"

definition sampleTx :: transaction where
  "sampleTx =
     \<lparr>tx_hash = sampleHash, tx_from = Some requesterA1, tx_to = None, tx_value = 0,
      tx_blockNumber = Some 120, tx_gasLimit = 21000\<rparr>"

definition sampleCompletion :: http_response where
  "sampleCompletion =
     \<lparr>ok = True, statusText = ''OK'',
      json = Inr (Completion (Some [Choice (Some (ChatMessage (Some '' A contract was created. '')))]))\<rparr>"

definition readsPendingNow :: "nat \<Rightarrow> error + address" where
  "readsPendingNow k = Inr requesterA1"

definition envHealthy :: analysis_env where
  "envHealthy =
     \<lparr>pendingRequests = readsPendingNow,
      getTransaction = Inr (Some sampleTx),
      fetchCompletion = (\<lambda>tx. Inr sampleCompletion),
      addChronicle = (\<lambda>narrative. Inr ''0x77''),
      waitReceipt = Inr ()\<rparr>"

definition envCommitRejected :: analysis_env where
  "envCommitRejected = envHealthy\<lparr>addChronicle := (\<lambda>narrative. Inl ''execution reverted'')\<rparr>"

definition envAIDown :: analysis_env where
  "envAIDown = envHealthy\<lparr>fetchCompletion := (\<lambda>tx. Inl ''fetch failed'')\<rparr>"

definition envNoMessage :: analysis_env where
  "envNoMessage =
     envHealthy\<lparr>fetchCompletion :=
       (\<lambda>tx. Inr \<lparr>ok = True, statusText = ''OK'', json = Inr (Completion (Some [Choice None]))\<rparr>)\<rparr>"

definition interleavedRuns :: "action list" where
  "interleavedRuns =
     [ReadPending 1, ReadPending 1, GetTransaction, GetTransaction, AICall, AICall,
      AddChronicle sampleHash ''A contract was created.'',
      AddChronicle sampleHash ''A contract was created.'',
      WaitReceipt]"

text \<open>
  An invocation gets as far as the commit: the waiter succeeds, the transaction is found
  and the narrative generator returns.
\<close>

definition reachesCommit :: "analysis_env \<Rightarrow> bool" where
  "reachesCommit env =
     (fst (waitForPendingRequest (pendingRequests env) 60 2000) \<and>
      (case getTransaction env of
         Inl err \<Rightarrow> False
       | Inr None \<Rightarrow> False
       | Inr (Some tx) \<Rightarrow> \<not> isl (analyzeTransactionWithAI (fetchCompletion env tx))))"

section \<open>Event aggregator\<close>

text \<open>
  Both listing endpoints walk the block range with the same loop:
  \<^verbatim>\<open>
  const CHUNK_SIZE = 1000;
  for (let fromBlock = startBlock; fromBlock <= currentBlock; fromBlock += CHUNK_SIZE) {
      const toBlock = Math.min(fromBlock + CHUNK_SIZE - 1, currentBlock);
      try { ... contract.queryFilter(filter, fromBlock, toBlock) ... }
      catch (chunkError) { console.error(...); }
  }
  \<close>
  \<open>chunks\<close> is the sequence of \<open>(fromBlock, toBlock)\<close> pairs the loop goes through.
\<close>

definition CHUNK_SIZE :: int where
  "CHUNK_SIZE = 1000"

function chunks :: "int \<Rightarrow> int \<Rightarrow> (int \<times> int) list" where
  "chunks fromBlock currentBlock =
     (if fromBlock \<le> currentBlock
      then (fromBlock, min (fromBlock + CHUNK_SIZE - 1) currentBlock) #
           chunks (fromBlock + CHUNK_SIZE) currentBlock
      else [])"
  by pat_completeness auto
termination
  by (relation "measure (\<lambda>(fromBlock, currentBlock). nat (currentBlock - fromBlock + 1))")
     (auto simp: CHUNK_SIZE_def)

declare chunks.simps [simp del]

text \<open>
  The events as the handlers read them. \<^verbatim>\<open>event.args\<close> may be absent (a log the ABI
  could not decode); \<^verbatim>\<open>event.getBlock()\<close> is the follow-up read of one chronicle event.
\<close>

record request_submitted =
  arg_user :: address
  arg_requestedTx :: hash
  arg_feePaid :: nat

record request_event =
  requestArgs :: "request_submitted option"

record chronicle_added =
  arg_txHash :: hash
  arg_requester :: address
  arg_narrative :: string

record block =
  block_timestamp :: nat

record chronicle_event =
  chronicleArgs :: "chronicle_added option"
  getBlock :: "error + block"

text \<open>
  What the ledger answers to a listing request: \<^verbatim>\<open>provider.getBlockNumber()\<close>,
  \<^verbatim>\<open>contract.queryFilter\<close> for either event kind over a block range, and
  \<^verbatim>\<open>contract.userPoints(address)\<close>.
\<close>

record ledger =
  getBlockNumber :: "error + int"
  queryRequestSubmitted :: "int \<Rightarrow> int \<Rightarrow> error + request_event list"
  queryChronicleAdded :: "int \<Rightarrow> int \<Rightarrow> error + chronicle_event list"
  userPoints :: "address \<Rightarrow> error + nat"

text \<open>
  The reply of a listing endpoint: \<open>Success\<close> is status 200 with the payload,
  \<open>Failure message error\<close> is status 500 with these two fields.
\<close>

datatype 'a reply = Success 'a | Failure string error


subsection \<open>Leaderboard\<close>

text \<open>\<^verbatim>\<open>Set.prototype.add\<close>; a JavaScript \<^verbatim>\<open>Set\<close> keeps insertion order.\<close>

definition setAdd :: "'a \<Rightarrow> 'a list \<Rightarrow> 'a list" where
  "setAdd x xs = (if x \<in> set xs then xs else xs @ [x])"

text \<open>
  \<^verbatim>\<open>
  events.forEach((event) => {
      if (event.args?.user) { userAddressesSet.add(event.args.user); }
  });
  \<close>
\<close>

fun addUsers :: "request_event list \<Rightarrow> address list \<Rightarrow> address list" where
  "addUsers [] userAddressesSet = userAddressesSet"
| "addUsers (event # events) userAddressesSet =
     addUsers events
       (case requestArgs event of
          None \<Rightarrow> userAddressesSet
        | Some a \<Rightarrow>
            if truthy (arg_user a) then setAdd (arg_user a) userAddressesSet
            else userAddressesSet)"

text \<open>The loop over the chunks: a chunk whose query throws leaves the set as it is.\<close>

fun scanRequests :: "ledger \<Rightarrow> (int \<times> int) list \<Rightarrow> address list \<Rightarrow> address list" where
  "scanRequests l [] userAddressesSet = userAddressesSet"
| "scanRequests l ((fromBlock, toBlock) # cs) userAddressesSet =
     scanRequests l cs
       (case queryRequestSubmitted l fromBlock toBlock of
          Inl chunkError \<Rightarrow> userAddressesSet
        | Inr events \<Rightarrow> addUsers events userAddressesSet)"

record entry =
  address :: address
  points :: nat

text \<open>
  \<^verbatim>\<open>Number(points)\<close>: the counter is a \<^verbatim>\<open>uint256\<close>, which the contract binding returns as
  a \<^verbatim>\<open>bigint\<close>; the conversion gives the nearest double, ties to the even mantissa. Up to
  \<open>2^53\<close> every integer is a double; above, with \<open>e\<close> the number of bits beyond 53,
  the low \<open>e\<close> bits are rounded away. A \<^verbatim>\<open>uint256\<close> is far below the largest double.
\<close>

fun bitLength :: "nat \<Rightarrow> nat" where
  "bitLength n = (if n = 0 then 0 else Suc (bitLength (n div 2)))"

declare bitLength.simps [simp del]

definition Number :: "nat \<Rightarrow> nat" where
  "Number n =
     (if n \<le> 9007199254740992 then n
      else (let e = bitLength n - 53;
                q = n div 2 ^ e;
                r = n mod 2 ^ e;
                half = 2 ^ (e - 1)
            in (if r < half \<or> (r = half \<and> even q) then q else q + 1) * 2 ^ e))"

text \<open>
  \<^verbatim>\<open>
  try { const points = await contract.userPoints(address);
        return { address, points: Number(points) }; }
  catch (error) { return { address, points: 0 }; }
  \<close>
\<close>

definition fetchPoints :: "ledger \<Rightarrow> address \<Rightarrow> entry" where
  "fetchPoints l a =
     (case userPoints l a of
        Inl err \<Rightarrow> \<lparr>address = a, points = 0\<rparr>
      | Inr p \<Rightarrow> \<lparr>address = a, points = Number p\<rparr>)"

text \<open>
  \<^verbatim>\<open>
  const currentBlock = await provider.getBlockNumber();
  const LOOKBACK_BLOCKS = 10000;
  const startBlock = Math.max(0, currentBlock - LOOKBACK_BLOCKS);
  ... the loop ...
  const userAddresses = Array.from(userAddressesSet);
  const leaderboardData = await Promise.all(userAddresses.map(async (address) => {...}));
  const topUsers = leaderboardData
      .filter(user => user.points > 0)
      .sort((a, b) => b.points - a.points)
      .slice(0, 10);
  res.status(200).json({ leaderboard: topUsers });
  \<close>
  \<^verbatim>\<open>Array.prototype.sort\<close> is stable; so is \<open>sort_key\<close>, here on the negated points.
\<close>

definition userAddressesOf :: "ledger \<Rightarrow> int \<Rightarrow> address list" where
  "userAddressesOf l currentBlock =
     scanRequests l (chunks (max 0 (currentBlock - 10000)) currentBlock) []"

definition getLeaderboard :: "ledger \<Rightarrow> entry list reply" where
  "getLeaderboard l =
     (case getBlockNumber l of
        Inl err \<Rightarrow> Failure ''Failed to fetch leaderboard'' err
      | Inr currentBlock \<Rightarrow>
          (let userAddresses = userAddressesOf l currentBlock;
               leaderboardData = map (fetchPoints l) userAddresses;
               topUsers = take 10 (sort_key (\<lambda>u. - int (points u))
                                    (filter (\<lambda>u. points u > 0) leaderboardData))
           in Success topUsers))"

subsection \<open>Chronicle listing\<close>

text \<open>
  The fields \<^verbatim>\<open>txHash\<close>, \<^verbatim>\<open>narrative\<close>, \<^verbatim>\<open>requester\<close> and \<^verbatim>\<open>timestamp\<close> of a listed
  chronicle.
\<close>

record chronicle =
  c_txHash :: hash
  c_narrative :: string
  c_requester :: address
  c_timestamp :: nat

text \<open>An event is kept when \<^verbatim>\<open>txHash && narrative && requester\<close> holds.\<close>

definition retained :: "chronicle_event \<Rightarrow> bool" where
  "retained event =
     (case chronicleArgs event of
        None \<Rightarrow> False
      | Some a \<Rightarrow> truthy (arg_txHash a) \<and> truthy (arg_narrative a) \<and> truthy (arg_requester a))"

text \<open>
  \<^verbatim>\<open>
  for (const event of events) {
      const txHash = event.args?.txHash; ...
      if (txHash && narrative && requester) {
          const block = await event.getBlock();
          chroniclesMap.set(txHash, { txHash, narrative, requester, timestamp: block.timestamp });
      }
  }
  \<close>
  The loop runs inside the \<^verbatim>\<open>try\<close> of its chunk with no handler of its own: a
  \<^verbatim>\<open>getBlock\<close> that throws leaves the loop, and what the map holds by then stays.
  \<^verbatim>\<open>Map.prototype.set\<close> replaces the value of a key in place and appends a new key,
  as \<open>AList.update\<close> does.
\<close>

fun storeChronicles ::
  "chronicle_event list \<Rightarrow> (hash \<times> chronicle) list \<Rightarrow> (hash \<times> chronicle) list" where
  "storeChronicles [] chroniclesMap = chroniclesMap"
| "storeChronicles (event # events) chroniclesMap =
     (case chronicleArgs event of
        None \<Rightarrow> storeChronicles events chroniclesMap
      | Some a \<Rightarrow>
          if truthy (arg_txHash a) \<and> truthy (arg_narrative a) \<and> truthy (arg_requester a) then
            (case getBlock event of
               Inl err \<Rightarrow> chroniclesMap
             | Inr block \<Rightarrow>
                 storeChronicles events
                   (AList.update (arg_txHash a)
                      \<lparr>c_txHash = arg_txHash a, c_narrative = arg_narrative a,
                       c_requester = arg_requester a, c_timestamp = block_timestamp block\<rparr>
                      chroniclesMap))
          else storeChronicles events chroniclesMap)"

fun scanChronicles ::
  "ledger \<Rightarrow> (int \<times> int) list \<Rightarrow> (hash \<times> chronicle) list \<Rightarrow> (hash \<times> chronicle) list" where
  "scanChronicles l [] chroniclesMap = chroniclesMap"
| "scanChronicles l ((fromBlock, toBlock) # cs) chroniclesMap =
     scanChronicles l cs
       (case queryChronicleAdded l fromBlock toBlock of
          Inl chunkError \<Rightarrow> chroniclesMap
        | Inr events \<Rightarrow> storeChronicles events chroniclesMap)"

record chronicles_body =
  total :: nat
  chronicles :: "chronicle list"

text \<open>
  \<^verbatim>\<open>
  const LOOKBACK_BLOCKS = 50000;
  const startBlock = Math.max(0, currentBlock - LOOKBACK_BLOCKS);
  ... the loop ...
  const chronicles = Array.from(chroniclesMap.values())
      .sort((a, b) => b.timestamp - a.timestamp);
  res.status(200).json({ total: chronicles.length, chronicles });
  \<close>
\<close>

definition chroniclesMapOf :: "ledger \<Rightarrow> int \<Rightarrow> (hash \<times> chronicle) list" where
  "chroniclesMapOf l currentBlock =
     scanChronicles l (chunks (max 0 (currentBlock - 50000)) currentBlock) []"

definition getChronicles :: "ledger \<Rightarrow> chronicles_body reply" where
  "getChronicles l =
     (case getBlockNumber l of
        Inl err \<Rightarrow> Failure ''Failed to fetch chronicles'' err
      | Inr currentBlock \<Rightarrow>
          (let chroniclesMap = chroniclesMapOf l currentBlock;
               sorted = sort_key (\<lambda>c. - int (c_timestamp c)) (map snd chroniclesMap)
           in Success \<lparr>total = length sorted, chronicles = sorted\<rparr>))"

subsection \<open>A deterministic ledger\<close>

text \<open>
  A ledger without failures is a chain that holds, for every block, the events logged in
  it; a range query answers with the events of the blocks of the range, in order.
\<close>

definition eventsIn :: "(int \<Rightarrow> 'e list) \<Rightarrow> int \<Rightarrow> int \<Rightarrow> 'e list" where
  "eventsIn chain fromBlock toBlock = concat (map chain [fromBlock..toBlock])"

text \<open>What the two scans do with the events of one chunk, read as sets.\<close>

definition usersOf :: "request_event list \<Rightarrow> address set" where
  "usersOf events =
     set (concat (map (\<lambda>event. case requestArgs event of
                                 None \<Rightarrow> []
                               | Some a \<Rightarrow> if truthy (arg_user a) then [arg_user a] else [])
                      events))"

definition enrichmentFails :: "chronicle_event \<Rightarrow> bool" where
  "enrichmentFails event = (retained event \<and> isl (getBlock event))"

definition hashesOf :: "chronicle_event list \<Rightarrow> hash set" where
  "hashesOf events =
     set (concat (map (\<lambda>event. case chronicleArgs event of
                                 None \<Rightarrow> []
                               | Some a \<Rightarrow>
                                   if truthy (arg_txHash a) \<and> truthy (arg_narrative a) \<and>
                                      truthy (arg_requester a)
                                   then [arg_txHash a] else [])
                      events))"

text \<open>The chronicle a kept event is listed as, once its block has been read.\<close>

definition chronicleOf :: "chronicle_event \<Rightarrow> chronicle option" where
  "chronicleOf event =
     (case chronicleArgs event of
        None \<Rightarrow> None
      | Some a \<Rightarrow>
          if truthy (arg_txHash a) \<and> truthy (arg_narrative a) \<and> truthy (arg_requester a) then
            (case getBlock event of
               Inl err \<Rightarrow> None
             | Inr b \<Rightarrow>
                 Some \<lparr>c_txHash = arg_txHash a, c_narrative = arg_narrative a,
                       c_requester = arg_requester a, c_timestamp = block_timestamp b\<rparr>)
          else None)"

text \<open>
  A sample chain: one request in block 5, two in block 1500, one in block 2000; a
  chronicle in block 7 and one in block 1200.
\<close>

definition sampleRequest :: "address \<Rightarrow> request_event" where
  "sampleRequest a =
     \<lparr>requestArgs = Some \<lparr>arg_user = a, arg_requestedTx = sampleHash, arg_feePaid = 1\<rparr>\<rparr>"

definition sampleChain :: "int \<Rightarrow> request_event list" where
  "sampleChain n =
     (if n = 5 then [sampleRequest ''0xA'']
      else if n = 1500 then [sampleRequest ''0xB'', sampleRequest ''0xA'']
      else if n = 2000 then [sampleRequest ''0xC'']
      else [])"

definition sampleAdded :: "hash \<Rightarrow> error + block \<Rightarrow> chronicle_event" where
  "sampleAdded h b =
     \<lparr>chronicleArgs = Some \<lparr>arg_txHash = h, arg_requester = requesterA1,
                             arg_narrative = ''A contract was created.''\<rparr>,
      getBlock = b\<rparr>"

definition sampleListed :: "hash \<Rightarrow> nat \<Rightarrow> chronicle" where
  "sampleListed h ts =
     \<lparr>c_txHash = h, c_narrative = ''A contract was created.'', c_requester = requesterA1,
      c_timestamp = ts\<rparr>"

definition sampleAddedChain :: "int \<Rightarrow> chronicle_event list" where
  "sampleAddedChain n =
     (if n = 7 then [sampleAdded ''0x01'' (Inr \<lparr>block_timestamp = 100\<rparr>)]
      else if n = 1200 then [sampleAdded ''0x04'' (Inr \<lparr>block_timestamp = 200\<rparr>)]
      else [])"

definition sampleLedger :: ledger where
  "sampleLedger =
     \<lparr>getBlockNumber = Inr 2000,
      queryRequestSubmitted = (\<lambda>f t. Inr (eventsIn sampleChain f t)),
      queryChronicleAdded = (\<lambda>f t. Inr (eventsIn sampleAddedChain f t)),
      userPoints = (\<lambda>a. if a = ''0xA'' then Inr 50 else if a = ''0xB'' then Inr 0
                          else if a = ''0xC'' then Inr 12 else Inl ''call revert'')\<rparr>"

text \<open>
  A sample ledger at block 2000 whose second chunk cannot be queried, and whose first
  chunk holds a chronicle event with a failing block read between two sound ones.
\<close>

definition faultyLedger :: ledger where
  "faultyLedger =
     \<lparr>getBlockNumber = Inr 2000,
      queryRequestSubmitted =
        (\<lambda>f t. if f = 0 then Inr [sampleRequest ''0xA'', sampleRequest ''0xB'']
                else if f = 1000 then Inl ''query timeout''
                else Inr [sampleRequest ''0xA'', sampleRequest ''0xC'']),
      queryChronicleAdded =
        (\<lambda>f t. if f = 0 then Inr [sampleAdded ''0x01'' (Inr \<lparr>block_timestamp = 100\<rparr>),
                                   sampleAdded ''0x02'' (Inl ''block not found''),
                                   sampleAdded ''0x03'' (Inr \<lparr>block_timestamp = 300\<rparr>)]
                else if f = 1000 then Inl ''query timeout''
                else Inr [sampleAdded ''0x04'' (Inr \<lparr>block_timestamp = 200\<rparr>)]),
      userPoints =
        (\<lambda>a. if a = ''0xA'' then Inr 50 else if a = ''0xB'' then Inr 0
              else if a = ''0xC'' then Inr 12 else Inl ''call revert'')\<rparr>"

text \<open>A sample ledger at block 0 whose only user has a counter of \<open>2^53 + 1\<close>.\<close>

definition bigCounterLedger :: ledger where
  "bigCounterLedger =
     \<lparr>getBlockNumber = Inr 0,
      queryRequestSubmitted = (\<lambda>f t. Inr [sampleRequest ''0xA'']),
      queryChronicleAdded = (\<lambda>f t. Inr []),
      userPoints = (\<lambda>a. Inr 9007199254740993)\<rparr>"

text \<open>
  A sample ledger at block 0 with thirteen users, twelve of them with points, one of them
  seen in two events.
\<close>

definition crowdPoints :: "(address \<times> nat) list" where
  "crowdPoints =
     [(''0x01'', 5), (''0x02'', 120), (''0x03'', 7), (''0x04'', 0), (''0x05'', 33),
      (''0x06'', 64), (''0x07'', 12), (''0x08'', 90), (''0x09'', 1), (''0x0A'', 41),
      (''0x0B'', 28), (''0x0C'', 77), (''0x0D'', 15)]"

definition crowdedLedger :: ledger where
  "crowdedLedger =
     \<lparr>getBlockNumber = Inr 0,
      queryRequestSubmitted =
        (\<lambda>f t. Inr (map sampleRequest (map fst crowdPoints @ [''0x02'']))),
      queryChronicleAdded = (\<lambda>f t. Inr []),
      userPoints =
        (\<lambda>a. case map_of crowdPoints a of None \<Rightarrow> Inl ''call revert'' | Some p \<Rightarrow> Inr p)\<rparr>"

definition crowdTop :: "entry list" where
  "crowdTop =
     [\<lparr>address = ''0x02'', points = 120\<rparr>, \<lparr>address = ''0x08'', points = 90\<rparr>,
      \<lparr>address = ''0x0C'', points = 77\<rparr>, \<lparr>address = ''0x06'', points = 64\<rparr>,
      \<lparr>address = ''0x0A'', points = 41\<rparr>, \<lparr>address = ''0x05'', points = 33\<rparr>,
      \<lparr>address = ''0x0B'', points = 28\<rparr>, \<lparr>address = ''0x0D'', points = 15\<rparr>,
      \<lparr>address = ''0x07'', points = 12\<rparr>, \<lparr>address = ''0x03'', points = 7\<rparr>]"

section \<open>Properties of the waiter\<close>

lemma attempts_simps [simp]:
  "attempts [] = []"
  "attempts (ReadPending k # tr) = k # attempts tr"
  "attempts (Delay ms # tr) = attempts tr"
  by (simp_all add: attempts_def)

lemma delays_simps [simp]:
  "delays [] = []"
  "delays (ReadPending k # tr) = delays tr"
  "delays (Delay ms # tr) = ms # delays tr"
  by (simp_all add: delays_def)

lemma waitFrom_past: "maxAttempts < attempt \<Longrightarrow> waitFrom reads maxAttempts delayMs attempt = (False, [])"
  by (simp add: waitFrom.simps)

lemma waitFrom_hit:
  "attempt \<le> maxAttempts \<Longrightarrow> observes reads attempt \<Longrightarrow>
   waitFrom reads maxAttempts delayMs attempt = (True, [ReadPending attempt])"
  by (subst waitFrom.simps) (auto simp: observes_def split: sum.splits)

lemma waitFrom_threw:
  "attempt \<le> maxAttempts \<Longrightarrow> reads attempt = Inl err \<Longrightarrow>
   waitFrom reads maxAttempts delayMs attempt =
     (fst (waitFrom reads maxAttempts delayMs (Suc attempt)),
      ReadPending attempt # snd (waitFrom reads maxAttempts delayMs (Suc attempt)))"
  by (subst waitFrom.simps) (simp add: case_prod_beta)

lemma waitFrom_zero:
  "attempt \<le> maxAttempts \<Longrightarrow> reads attempt = Inr p \<Longrightarrow> \<not> observes reads attempt \<Longrightarrow>
   waitFrom reads maxAttempts delayMs attempt =
     (fst (waitFrom reads maxAttempts delayMs (Suc attempt)),
      ReadPending attempt # Delay delayMs # snd (waitFrom reads maxAttempts delayMs (Suc attempt)))"
  by (subst waitFrom.simps) (auto simp: observes_def case_prod_beta)

text \<open>No attempt from \<open>attempt\<close> on observes a requester: every attempt is made, none succeeds.\<close>

lemma waitFrom_never:
  "\<forall>k. attempt \<le> k \<and> k \<le> maxAttempts \<longrightarrow> \<not> observes reads k \<Longrightarrow>
   fst (waitFrom reads maxAttempts delayMs attempt) = False \<and>
   attempts (snd (waitFrom reads maxAttempts delayMs attempt)) = [attempt ..< Suc maxAttempts]"
proof (induction reads maxAttempts delayMs attempt rule: waitFrom.induct)
  case (1 reads maxAttempts delayMs attempt)
  show ?case
  proof (cases "attempt \<le> maxAttempts")
    case False
    then show ?thesis by (simp add: waitFrom_past)
  next
    case True
    have here: "\<not> observes reads attempt" using "1.prems" True by simp
    have later: "\<forall>k. attempt + 1 \<le> k \<and> k \<le> maxAttempts \<longrightarrow> \<not> observes reads k"
      using "1.prems" by simp
    have range: "[attempt ..< Suc maxAttempts] = attempt # [Suc attempt ..< Suc maxAttempts]"
      using True by (simp add: upt_conv_Cons)
    show ?thesis
    proof (cases "reads attempt")
      case (Inl err)
      from "1.IH"(1) [OF True Inl later] show ?thesis
        using True Inl range by (simp add: waitFrom_threw)
    next
      case (Inr p)
      have "\<not> (truthy p \<and> p \<noteq> ZeroAddress)" using here Inr by (simp add: observes_def)
      from "1.IH"(2) [OF True Inr this later] show ?thesis
        using True Inr here range by (simp add: waitFrom_zero)
    qed
  qed
qed

text \<open>Attempt \<open>k\<close> is the first from \<open>attempt\<close> on to observe a requester: the waiter returns there.\<close>

lemma waitFrom_first:
  "attempt \<le> k \<Longrightarrow> k \<le> maxAttempts \<Longrightarrow> observes reads k \<Longrightarrow>
   \<forall>j. attempt \<le> j \<and> j < k \<longrightarrow> \<not> observes reads j \<Longrightarrow>
   fst (waitFrom reads maxAttempts delayMs attempt) = True \<and>
   attempts (snd (waitFrom reads maxAttempts delayMs attempt)) = [attempt ..< Suc k]"
proof (induction reads maxAttempts delayMs attempt rule: waitFrom.induct)
  case (1 reads maxAttempts delayMs attempt)
  have le: "attempt \<le> maxAttempts" using "1.prems" by simp
  show ?case
  proof (cases "attempt = k")
    case True
    then show ?thesis using "1.prems" by (simp add: waitFrom_hit)
  next
    case False
    then have lt: "attempt < k" using "1.prems" by simp
    have here: "\<not> observes reads attempt" using "1.prems" lt by simp
    have later: "\<forall>j. attempt + 1 \<le> j \<and> j < k \<longrightarrow> \<not> observes reads j"
      using "1.prems" by simp
    have k': "attempt + 1 \<le> k" using lt by simp
    have range: "[attempt ..< Suc k] = attempt # [Suc attempt ..< Suc k]"
      using lt by (simp add: upt_conv_Cons)
    show ?thesis
    proof (cases "reads attempt")
      case (Inl err)
      from "1.IH"(1) [OF le Inl k' "1.prems"(2) "1.prems"(3) later] show ?thesis
        using le Inl range by (simp add: waitFrom_threw)
    next
      case (Inr p)
      have "\<not> (truthy p \<and> p \<noteq> ZeroAddress)" using here Inr by (simp add: observes_def)
      from "1.IH"(2) [OF le Inr this k' "1.prems"(2) "1.prems"(3) later] show ?thesis
        using le Inr here range by (simp add: waitFrom_zero)
    qed
  qed
qed

lemma waitFrom_trace:
  "snd (waitFrom reads maxAttempts delayMs attempt) =
     concat (map (\<lambda>k. ReadPending k # (if delayAfter reads k then [Delay delayMs] else []))
       (attempts (snd (waitFrom reads maxAttempts delayMs attempt))))"
proof (induction reads maxAttempts delayMs attempt rule: waitFrom.induct)
  case (1 reads maxAttempts delayMs attempt)
  show ?case
  proof (cases "attempt \<le> maxAttempts")
    case False
    then show ?thesis by (simp add: waitFrom_past)
  next
    case True
    show ?thesis
    proof (cases "reads attempt")
      case (Inl err)
      from "1.IH"(1) [OF True Inl] show ?thesis
        using True Inl by (simp add: waitFrom_threw delayAfter_def)
    next
      case (Inr p)
      show ?thesis
      proof (cases "observes reads attempt")
        case True
        with \<open>attempt \<le> maxAttempts\<close> Inr show ?thesis
          by (simp add: waitFrom_hit delayAfter_def observes_def)
      next
        case False
        then have nz: "\<not> (truthy p \<and> p \<noteq> ZeroAddress)" using Inr by (simp add: observes_def)
        from "1.IH"(2) [OF True Inr nz] show ?thesis
          using True Inr False nz by (simp add: waitFrom_zero delayAfter_def)
      qed
    qed
  qed
qed

lemma delays_concat_step:
  "delays (concat (map (\<lambda>k. ReadPending k # (if P k then [Delay d] else [])) ks)) =
     map (\<lambda>k. d) (filter P ks)"
  by (induction ks) simp_all

lemma waitFrom_delays:
  "delays (snd (waitFrom reads maxAttempts delayMs attempt)) =
     map (\<lambda>k. delayMs) (filter (delayAfter reads)
       (attempts (snd (waitFrom reads maxAttempts delayMs attempt))))"
  by (subst waitFrom_trace) (rule delays_concat_step)

text \<open>
  C3. With the policy of 60 attempts, the waiter succeeds exactly when some attempt
  \<open>k \<le> 60\<close> observes a non-zero pending requester, and then the attempts it made are
  \<open>1, ..., k\<close> for the first such \<open>k\<close>; when no attempt observes one (reads that throw
  included), it makes the attempts \<open>1, ..., 60\<close>, exactly 60 of them, and fails.
\<close>

theorem waitForPendingRequest_first_or_exhausted:
  "(fst (waitForPendingRequest reads 60 2000) \<longleftrightarrow> (\<exists>k. 1 \<le> k \<and> k \<le> 60 \<and> observes reads k)) \<and>
   (\<forall>k. 1 \<le> k \<and> k \<le> 60 \<and> observes reads k \<and> (\<forall>j. 1 \<le> j \<and> j < k \<longrightarrow> \<not> observes reads j) \<longrightarrow>
        fst (waitForPendingRequest reads 60 2000) \<and>
        attempts (snd (waitForPendingRequest reads 60 2000)) = [1 ..< Suc k]) \<and>
   ((\<forall>k. 1 \<le> k \<and> k \<le> 60 \<longrightarrow> \<not> observes reads k) \<longrightarrow>
        \<not> fst (waitForPendingRequest reads 60 2000) \<and>
        attempts (snd (waitForPendingRequest reads 60 2000)) = [1 ..< 61] \<and>
        length (attempts (snd (waitForPendingRequest reads 60 2000))) = 60)"
proof -
  let ?w = "waitForPendingRequest reads 60 2000"
  have first: "fst ?w \<and> attempts (snd ?w) = [1 ..< Suc k]"
    if "1 \<le> k" "k \<le> 60" "observes reads k" "\<forall>j. 1 \<le> j \<and> j < k \<longrightarrow> \<not> observes reads j" for k
    using waitFrom_first [OF that(1) that(2) that(3) that(4), of 2000]
    by (simp add: waitForPendingRequest_def)
  have never: "\<not> fst ?w \<and> attempts (snd ?w) = [1 ..< 61]"
    if "\<forall>k. 1 \<le> k \<and> k \<le> 60 \<longrightarrow> \<not> observes reads k"
    using waitFrom_never [OF that, of 2000] by (simp add: waitForPendingRequest_def)
  have iff: "fst ?w \<longleftrightarrow> (\<exists>k. 1 \<le> k \<and> k \<le> 60 \<and> observes reads k)"
  proof
    assume "fst ?w"
    then show "\<exists>k. 1 \<le> k \<and> k \<le> 60 \<and> observes reads k" using never by blast
  next
    assume ex: "\<exists>k. 1 \<le> k \<and> k \<le> 60 \<and> observes reads k"
    define k where "k = (LEAST k. 1 \<le> k \<and> k \<le> 60 \<and> observes reads k)"
    have k: "1 \<le> k \<and> k \<le> 60 \<and> observes reads k"
      unfolding k_def using ex by (rule LeastI_ex)
    have "\<not> observes reads j" if "1 \<le> j \<and> j < k" for j
    proof
      assume "observes reads j"
      with that k have "1 \<le> j \<and> j \<le> 60 \<and> observes reads j" by simp
      then have "k \<le> j" unfolding k_def by (rule Least_le)
      with that show False by simp
    qed
    with k first show "fst ?w" by blast
  qed
  from never have never': "(\<forall>k. 1 \<le> k \<and> k \<le> 60 \<longrightarrow> \<not> observes reads k) \<longrightarrow>
      \<not> fst ?w \<and> attempts (snd ?w) = [1 ..< 61] \<and> length (attempts (snd ?w)) = 60"
    by simp
  from iff first never' show ?thesis by blast
qed

theorem waitForPendingRequest_first_or_exhausted_witness:
  "observes readsThrowThenHit 3 \<and> \<not> observes readsThrowThenHit 1 \<and>
   \<not> observes readsThrowThenHit 2 \<and>
   fst (waitForPendingRequest readsThrowThenHit 60 2000) \<and>
   attempts (snd (waitForPendingRequest readsThrowThenHit 60 2000)) = [1, 2, 3] \<and>
   \<not> fst (waitForPendingRequest readsMixedMiss 60 2000) \<and>
   length (attempts (snd (waitForPendingRequest readsMixedMiss 60 2000))) = 60"
proof -
  have o3: "observes readsThrowThenHit 3"
    by (simp add: observes_def readsThrowThenHit_def requesterA1_def truthy_def ZeroAddress_def)
  have o1: "\<not> observes readsThrowThenHit 1"
    by (simp add: observes_def readsThrowThenHit_def)
  have o2: "\<not> observes readsThrowThenHit 2"
    by (simp add: observes_def readsThrowThenHit_def)
  have before: "\<forall>j. 1 \<le> j \<and> j < 3 \<longrightarrow> \<not> observes readsThrowThenHit j"
    by (simp add: observes_def readsThrowThenHit_def)
  note hit = waitForPendingRequest_first_or_exhausted
    [of readsThrowThenHit, THEN conjunct2, THEN conjunct1, rule_format, of 3]
  have "fst (waitForPendingRequest readsThrowThenHit 60 2000) \<and>
        attempts (snd (waitForPendingRequest readsThrowThenHit 60 2000)) = [1 ..< Suc 3]"
    by (rule hit) (use o3 before in simp)
  moreover have "[1 ..< Suc 3] = [1, 2, 3::nat]" by (simp add: upt_rec)
  ultimately have a: "fst (waitForPendingRequest readsThrowThenHit 60 2000) \<and>
        attempts (snd (waitForPendingRequest readsThrowThenHit 60 2000)) = [1, 2, 3]" by simp
  have none: "\<forall>k. 1 \<le> k \<and> k \<le> 60 \<longrightarrow> \<not> observes readsMixedMiss k"
    by (simp add: observes_def readsMixedMiss_def)
  note miss = waitForPendingRequest_first_or_exhausted
    [of readsMixedMiss, THEN conjunct2, THEN conjunct2, rule_format]
  have b: "\<not> fst (waitForPendingRequest readsMixedMiss 60 2000) \<and>
        length (attempts (snd (waitForPendingRequest readsMixedMiss 60 2000))) = 60"
    using miss [OF none [rule_format]] by blast
  from o3 o1 o2 a b show ?thesis by blast
qed

text \<open>
  C10. The trace of a run is, attempt by attempt, the read followed by the delay only when
  that read returned and showed no requester: after a read that throws, the next action
  is the next attempt's read. So when every read throws, the run makes its 60 attempts
  with no delay at all and fails.
\<close>

theorem waitForPendingRequest_throw_skips_delay:
  "snd (waitForPendingRequest reads 60 2000) =
     concat (map (\<lambda>k. ReadPending k # (if delayAfter reads k then [Delay 2000] else []))
       (attempts (snd (waitForPendingRequest reads 60 2000)))) \<and>
   (\<forall>k err. reads k = Inl err \<longrightarrow> \<not> delayAfter reads k) \<and>
   (\<forall>k p. reads k = Inr p \<longrightarrow> (delayAfter reads k \<longleftrightarrow> \<not> observes reads k)) \<and>
   ((\<forall>k. 1 \<le> k \<and> k \<le> 60 \<longrightarrow> isl (reads k)) \<longrightarrow>
      waitForPendingRequest reads 60 2000 = (False, map ReadPending [1 ..< 61]) \<and>
      length (attempts (snd (waitForPendingRequest reads 60 2000))) = 60 \<and>
      delays (snd (waitForPendingRequest reads 60 2000)) = [] \<and>
      sleptMs (snd (waitForPendingRequest reads 60 2000)) = 0)"
proof -
  let ?w = "waitForPendingRequest reads 60 2000"
  have trace: "snd ?w =
     concat (map (\<lambda>k. ReadPending k # (if delayAfter reads k then [Delay 2000] else []))
       (attempts (snd ?w)))"
    unfolding waitForPendingRequest_def by (rule waitFrom_trace)
  have threw: "\<forall>k err. reads k = Inl err \<longrightarrow> \<not> delayAfter reads k"
    by (simp add: delayAfter_def)
  have returned: "\<forall>k p. reads k = Inr p \<longrightarrow> (delayAfter reads k \<longleftrightarrow> \<not> observes reads k)"
    by (simp add: delayAfter_def observes_def)
  have all: "?w = (False, map ReadPending [1 ..< 61]) \<and> length (attempts (snd ?w)) = 60 \<and>
             delays (snd ?w) = [] \<and> sleptMs (snd ?w) = 0"
    if thrown: "\<forall>k. 1 \<le> k \<and> k \<le> 60 \<longrightarrow> isl (reads k)"
  proof -
    have nobs: "\<forall>k. 1 \<le> k \<and> k \<le> 60 \<longrightarrow> \<not> observes reads k"
      using thrown by (auto simp: observes_def isl_def)
    from waitFrom_never [OF nobs, of 2000]
    have res: "\<not> fst ?w" and att: "attempts (snd ?w) = [1 ..< Suc 60]"
      by (simp_all only: waitForPendingRequest_def simp_thms)
    have nodelay: "\<not> delayAfter reads k" if "k \<in> set [1 ..< Suc 60]" for k
    proof -
      from that have "1 \<le> k \<and> k \<le> 60" by auto
      with thrown have "isl (reads k)" by blast
      then show ?thesis by (auto simp: delayAfter_def isl_def)
    qed
    then have step: "map (\<lambda>k. ReadPending k # (if delayAfter reads k then [Delay 2000] else []))
        [1 ..< Suc 60] = map (\<lambda>k. [ReadPending k]) [1 ..< Suc 60]"
      by (intro map_cong refl) simp
    have "snd ?w = concat (map (\<lambda>k. [ReadPending k]) [1 ..< Suc 60])"
      using trace unfolding att step .
    also have "\<dots> = map ReadPending [1 ..< Suc 60]"
      by (induction "[1 ..< Suc 60]") simp_all
    finally have tr: "snd ?w = map ReadPending [1 ..< Suc 60]" .
    have suc: "Suc 60 = 61" by simp
    have d: "delays (map ReadPending ks) = []" for ks by (induction ks) simp_all
    have "?w = (False, map ReadPending [1 ..< 61])"
      using res tr unfolding suc by (cases ?w) simp
    moreover have "length (attempts (snd ?w)) = 60" unfolding att by simp
    moreover have "delays (snd ?w) = []" unfolding tr by (rule d)
    moreover from this have "sleptMs (snd ?w) = 0" by (simp add: sleptMs_def)
    ultimately show ?thesis by blast
  qed
  from trace threw returned all show ?thesis by blast
qed

theorem waitForPendingRequest_throw_skips_delay_witness:
  "isl (readsAlwaysThrow 1) \<and> isl (readsAlwaysThrow 60) \<and>
   \<not> fst (waitForPendingRequest readsAlwaysThrow 60 2000) \<and>
   length (attempts (snd (waitForPendingRequest readsAlwaysThrow 60 2000))) = 60 \<and>
   delays (snd (waitForPendingRequest readsAlwaysThrow 60 2000)) = [] \<and>
   sleptMs (snd (waitForPendingRequest readsAlwaysThrow 60 2000)) = 0"
proof -
  have thrown: "1 \<le> k \<and> k \<le> 60 \<longrightarrow> isl (readsAlwaysThrow k)" for k
    by (simp add: readsAlwaysThrow_def)
  note all = waitForPendingRequest_throw_skips_delay
    [of readsAlwaysThrow, THEN conjunct2, THEN conjunct2, THEN conjunct2, rule_format]
  have "waitForPendingRequest readsAlwaysThrow 60 2000 = (False, map ReadPending [1 ..< 61]) \<and>
      length (attempts (snd (waitForPendingRequest readsAlwaysThrow 60 2000))) = 60 \<and>
      delays (snd (waitForPendingRequest readsAlwaysThrow 60 2000)) = [] \<and>
      sleptMs (snd (waitForPendingRequest readsAlwaysThrow 60 2000)) = 0"
    by (rule all) (use thrown in blast)
  moreover have "isl (readsAlwaysThrow 1) \<and> isl (readsAlwaysThrow 60)"
    by (simp add: readsAlwaysThrow_def)
  moreover have "\<not> fst (False, map ReadPending [1 ..< 61])" by simp
  ultimately show ?thesis by metis
qed

text \<open>
  C9, as the code has it. When attempt 3 is the first to observe a requester, the waiter
  returns right after the third read: the only delays run are those after attempts 1 and
  2, and only after those of the two whose read returned. With both reads returning the
  zero address that is two periods of 2000 ms, 4000 ms in all; a read that threw
  contributes none.
\<close>

theorem waitForPendingRequest_third_attempt_two_delays:
  assumes "\<not> observes reads 1" and "\<not> observes reads 2" and "observes reads 3"
  shows "fst (waitForPendingRequest reads 60 2000) \<and>
         attempts (snd (waitForPendingRequest reads 60 2000)) = [1, 2, 3] \<and>
         delays (snd (waitForPendingRequest reads 60 2000)) =
           map (\<lambda>k. 2000) (filter (delayAfter reads) [1, 2]) \<and>
         sleptMs (snd (waitForPendingRequest reads 60 2000)) \<le> 4000 \<and>
         (\<not> isl (reads 1) \<and> \<not> isl (reads 2) \<longrightarrow>
            snd (waitForPendingRequest reads 60 2000) =
              [ReadPending 1, Delay 2000, ReadPending 2, Delay 2000, ReadPending 3] \<and>
            sleptMs (snd (waitForPendingRequest reads 60 2000)) = 4000)"
proof -
  let ?w = "waitForPendingRequest reads 60 2000"
  have before: "\<forall>j. Suc 0 \<le> j \<and> j < 3 \<longrightarrow> \<not> observes reads j"
  proof (intro allI impI)
    fix j :: nat assume "Suc 0 \<le> j \<and> j < 3"
    then have "j = 1 \<or> j = 2" by arith
    with assms show "\<not> observes reads j" by auto
  qed
  have "fst (waitFrom reads 60 2000 (Suc 0)) = True \<and>
        attempts (snd (waitFrom reads 60 2000 (Suc 0))) = [Suc 0 ..< Suc 3]"
    by (rule waitFrom_first) (use assms before in simp_all)
  moreover have "[Suc 0 ..< Suc 3] = [1, 2, 3::nat]" by (simp add: upt_rec)
  ultimately have ok: "fst ?w" and att: "attempts (snd ?w) = [1, 2, 3]"
    by (simp_all add: waitForPendingRequest_def)
  have d3: "\<not> delayAfter reads 3"
    using assms(3) by (auto simp: delayAfter_def observes_def split: sum.splits)
  have del: "delays (snd ?w) = map (\<lambda>k. 2000) (filter (delayAfter reads) [1, 2])"
    using waitFrom_delays [of reads 60 2000 1] att d3
    by (simp add: waitForPendingRequest_def)
  have le: "sleptMs (snd ?w) \<le> 4000"
    unfolding sleptMs_def del by simp
  have full: "snd ?w = [ReadPending 1, Delay 2000, ReadPending 2, Delay 2000, ReadPending 3] \<and>
              sleptMs (snd ?w) = 4000"
    if "\<not> isl (reads 1) \<and> \<not> isl (reads 2)"
  proof -
    have d1: "delayAfter reads 1" and d2: "delayAfter reads 2"
      using that assms(1,2) by (auto simp: delayAfter_def observes_def isl_def split: sum.splits)
    have "snd ?w = concat (map (\<lambda>k. ReadPending k # (if delayAfter reads k then [Delay 2000] else []))
        (attempts (snd ?w)))"
      unfolding waitForPendingRequest_def by (rule waitFrom_trace)
    then have "snd ?w = [ReadPending 1, Delay 2000, ReadPending 2, Delay 2000, ReadPending 3]"
      unfolding att using d1 d2 d3 by simp
    moreover have "sleptMs (snd ?w) = 4000"
      unfolding sleptMs_def del using d1 d2 by simp
    ultimately show ?thesis by simp
  qed
  from ok att del le full show ?thesis by blast
qed

theorem waitForPendingRequest_third_attempt_two_delays_witness:
  "\<not> observes readsHitAtThree 1 \<and> \<not> observes readsHitAtThree 2 \<and> observes readsHitAtThree 3 \<and>
   \<not> isl (readsHitAtThree 1) \<and> \<not> isl (readsHitAtThree 2) \<and>
   fst (waitForPendingRequest readsHitAtThree 60 2000) \<and>
   snd (waitForPendingRequest readsHitAtThree 60 2000) =
     [ReadPending 1, Delay 2000, ReadPending 2, Delay 2000, ReadPending 3] \<and>
   sleptMs (snd (waitForPendingRequest readsHitAtThree 60 2000)) = 4000"
proof -
  have o1: "\<not> observes readsHitAtThree 1" and o2: "\<not> observes readsHitAtThree 2"
    by (simp_all add: observes_def readsHitAtThree_def)
  have o3: "observes readsHitAtThree 3"
    by (simp add: observes_def readsHitAtThree_def requesterA1_def truthy_def ZeroAddress_def)
  have r: "\<not> isl (readsHitAtThree 1) \<and> \<not> isl (readsHitAtThree 2)"
    by (simp add: readsHitAtThree_def)
  from waitForPendingRequest_third_attempt_two_delays [OF o1 o2 o3] r o1 o2 o3
  show ?thesis by blast
qed

text \<open>
  C9, as the specification has it, fails: with the requester first visible at attempt 3
  and the two earlier reads returning the zero address, the run has slept 4000 ms when
  it returns, not three periods of 2000 ms.
\<close>

theorem waitForPendingRequest_third_attempt_counterexample:
  "\<not> observes readsHitAtThree 1 \<and> \<not> observes readsHitAtThree 2 \<and> observes readsHitAtThree 3 \<and>
   waitForPendingRequest readsHitAtThree 60 2000 =
     (True, [ReadPending 1, Delay 2000, ReadPending 2, Delay 2000, ReadPending 3]) \<and>
   length (delays (snd (waitForPendingRequest readsHitAtThree 60 2000))) \<noteq> 3 \<and>
   sleptMs (snd (waitForPendingRequest readsHitAtThree 60 2000)) < 6000"
proof -
  have o1: "\<not> observes readsHitAtThree 1" and o2: "\<not> observes readsHitAtThree 2"
    by (simp_all add: observes_def readsHitAtThree_def)
  have o3: "observes readsHitAtThree 3"
    by (simp add: observes_def readsHitAtThree_def requesterA1_def truthy_def ZeroAddress_def)
  have r1: "readsHitAtThree 1 = Inr ZeroAddress" and r2: "readsHitAtThree 2 = Inr ZeroAddress"
    by (simp_all add: readsHitAtThree_def)
  have w3: "waitFrom readsHitAtThree 60 2000 3 = (True, [ReadPending 3])"
    by (rule waitFrom_hit) (use o3 in simp_all)
  have w2: "waitFrom readsHitAtThree 60 2000 2 = (True, [ReadPending 2, Delay 2000, ReadPending 3])"
    using waitFrom_zero [of 2 60 readsHitAtThree ZeroAddress 2000] o2 r2 w3
    by (simp add: eval_nat_numeral)
  have w1: "waitFrom readsHitAtThree 60 2000 1 =
      (True, [ReadPending 1, Delay 2000, ReadPending 2, Delay 2000, ReadPending 3])"
    using waitFrom_zero [of 1 60 readsHitAtThree ZeroAddress 2000] o1 r1 w2
    by (simp add: eval_nat_numeral)
  have w: "waitForPendingRequest readsHitAtThree 60 2000 =
      (True, [ReadPending 1, Delay 2000, ReadPending 2, Delay 2000, ReadPending 3])"
    using w1 by (simp add: waitForPendingRequest_def)
  show ?thesis using o1 o2 o3 unfolding w by (simp add: sleptMs_def)
qed

section \<open>Properties of the orchestrator\<close>

lemma aiCalls_simps [simp]:
  "aiCalls [] = 0"
  "aiCalls (a # tr) = (if a = AICall then Suc (aiCalls tr) else aiCalls tr)"
  "aiCalls (tr @ tr') = aiCalls tr + aiCalls tr'"
  by (simp_all add: aiCalls_def)

lemma commitCalls_simps [simp]:
  "commitCalls [] = 0"
  "commitCalls (a # tr) = (if isCommit a then Suc (commitCalls tr) else commitCalls tr)"
  "commitCalls (tr @ tr') = commitCalls tr + commitCalls tr'"
  by (simp_all add: commitCalls_def)

lemma isCommit_simps [simp]:
  "\<not> isCommit (ReadPending k)" "\<not> isCommit (Delay ms)" "\<not> isCommit GetTransaction"
  "\<not> isCommit AICall" "isCommit (AddChronicle h n)" "\<not> isCommit WaitReceipt"
  by (simp_all add: isCommit_def)

text \<open>The waiter only reads and sleeps.\<close>

lemma polling_only:
  "aiCalls (concat (map (\<lambda>k. ReadPending k # (if P k then [Delay d] else [])) ks)) = 0 \<and>
   commitCalls (concat (map (\<lambda>k. ReadPending k # (if P k then [Delay d] else [])) ks)) = 0"
  by (induction ks) simp_all

lemma waitForPendingRequest_calls:
  "aiCalls (snd (waitForPendingRequest reads maxAttempts delayMs)) = 0"
  "commitCalls (snd (waitForPendingRequest reads maxAttempts delayMs)) = 0"
  unfolding waitForPendingRequest_def
  by (subst waitFrom_trace, simp add: polling_only)+

lemma polled_calls:
  "waitForPendingRequest reads maxAttempts delayMs = (r, polled) \<Longrightarrow>
   aiCalls polled = 0 \<and> commitCalls polled = 0"
  using waitForPendingRequest_calls [of reads maxAttempts delayMs] by simp

text \<open>The reply and the trace of the handler, path by path.\<close>

lemma analyzeTransaction_invalid:
  "\<not> truthy txHash \<or> \<not> isHexString txHash 32 \<Longrightarrow>
   analyzeTransaction env txHash =
     (\<lparr>status = 400, body = [(''message'', ''Invalid transaction hash.'')]\<rparr>, [])"
  by (auto simp: analyzeTransaction_def)

lemma analyzeTransaction_ai_failed:
  assumes "truthy txHash" "isHexString txHash 32"
    and "waitForPendingRequest (pendingRequests env) 60 2000 = (True, polled)"
    and "getTransaction env = Inr (Some tx)"
    and "analyzeTransactionWithAI (fetchCompletion env tx) = Inl err"
  shows "analyzeTransaction env txHash = (internalError err, polled @ [GetTransaction, AICall])"
  using assms by (simp add: analyzeTransaction_def)

lemma analyzeTransaction_commit_failed:
  assumes "truthy txHash" "isHexString txHash 32"
    and "waitForPendingRequest (pendingRequests env) 60 2000 = (True, polled)"
    and "getTransaction env = Inr (Some tx)"
    and "analyzeTransactionWithAI (fetchCompletion env tx) = Inr narrative"
    and "addChronicle env narrative = Inl err"
  shows "analyzeTransaction env txHash =
           (internalError err, polled @ [GetTransaction, AICall, AddChronicle txHash narrative])"
  using assms by (simp add: analyzeTransaction_def)

lemma analyzeTransaction_receipt_failed:
  assumes "truthy txHash" "isHexString txHash 32"
    and "waitForPendingRequest (pendingRequests env) 60 2000 = (True, polled)"
    and "getTransaction env = Inr (Some tx)"
    and "analyzeTransactionWithAI (fetchCompletion env tx) = Inr narrative"
    and "addChronicle env narrative = Inr chronicleTxHash"
    and "waitReceipt env = Inl err"
  shows "analyzeTransaction env txHash =
           (internalError err,
            polled @ [GetTransaction, AICall, AddChronicle txHash narrative, WaitReceipt])"
  using assms by (simp add: analyzeTransaction_def)

lemma analyzeTransaction_done:
  assumes "truthy txHash" "isHexString txHash 32"
    and "waitForPendingRequest (pendingRequests env) 60 2000 = (True, polled)"
    and "getTransaction env = Inr (Some tx)"
    and "analyzeTransactionWithAI (fetchCompletion env tx) = Inr narrative"
    and "addChronicle env narrative = Inr chronicleTxHash"
    and "waitReceipt env = Inr u"
  shows "analyzeTransaction env txHash =
           (\<lparr>status = 200,
             body = [(''message'', ''Analysis complete!''), (''narrative'', narrative),
                     (''chronicleTxHash'', chronicleTxHash)]\<rparr>,
            polled @ [GetTransaction, AICall, AddChronicle txHash narrative, WaitReceipt])"
  using assms by (simp add: analyzeTransaction_def)

lemma analyzeTransaction_at_most_once:
  "aiCalls (snd (analyzeTransaction env txHash)) \<le> 1 \<and>
   commitCalls (snd (analyzeTransaction env txHash)) \<le> 1"
proof (cases "\<not> truthy txHash \<or> \<not> isHexString txHash 32")
  case True
  then show ?thesis by (simp add: analyzeTransaction_invalid)
next
  case False
  obtain r polled where w: "waitForPendingRequest (pendingRequests env) 60 2000 = (r, polled)"
    by (cases "waitForPendingRequest (pendingRequests env) 60 2000")
  from polled_calls [OF w] have p: "aiCalls polled = 0" "commitCalls polled = 0" by simp_all
  show ?thesis using False w p
    by (simp add: analyzeTransaction_def split: sum.splits option.splits)
qed

text \<open>When the narrative generator throws.\<close>

lemma analyzeTransactionWithAI_fails_iff:
  "isl (analyzeTransactionWithAI fetched) \<longleftrightarrow>
     (case fetched of
        Inl err \<Rightarrow> True
      | Inr response \<Rightarrow>
          \<not> ok response \<or>
          (case json response of
             Inl err \<Rightarrow> True
           | Inr data \<Rightarrow>
               (case choices data of
                  None \<Rightarrow> True
                | Some [] \<Rightarrow> True
                | Some (c # cs) \<Rightarrow>
                    (case message c of None \<Rightarrow> True | Some m \<Rightarrow> content m = None))))"
  by (simp add: analyzeTransactionWithAI_def split: sum.splits option.splits list.splits)

lemma shuffles_count:
  "zs \<in> shuffles xs ys \<Longrightarrow>
   length (filter P zs) = length (filter P xs) + length (filter P ys)"
  by (induction xs ys arbitrary: zs rule: shuffles.induct) auto

lemma reachesCommit_calls:
  assumes "truthy txHash" "isHexString txHash 32" "reachesCommit env"
  shows "aiCalls (snd (analyzeTransaction env txHash)) = 1 \<and>
         commitCalls (snd (analyzeTransaction env txHash)) = 1"
proof -
  obtain r polled where w: "waitForPendingRequest (pendingRequests env) 60 2000 = (r, polled)"
    by (cases "waitForPendingRequest (pendingRequests env) 60 2000")
  from polled_calls [OF w] have p: "aiCalls polled = 0" "commitCalls polled = 0" by simp_all
  from assms(3) w have r: "r" by (simp add: reachesCommit_def)
  show ?thesis using assms w p r
    by (auto simp: analyzeTransaction_def reachesCommit_def split: sum.splits option.splits)
qed

lemma sampleHash_valid: "truthy sampleHash \<and> isHexString sampleHash 32"
  by (simp add: truthy_def isHexString_def sampleHash_def isHexDigit_def)

lemma readsPendingNow_polled:
  "waitForPendingRequest readsPendingNow 60 2000 = (True, [ReadPending 1])"
  unfolding waitForPendingRequest_def
  by (rule waitFrom_hit)
     (simp_all add: observes_def readsPendingNow_def requesterA1_def truthy_def ZeroAddress_def)

lemma sampleCompletion_narrative:
  "analyzeTransactionWithAI (Inr sampleCompletion) = Inr ''A contract was created.''"
  by (simp add: analyzeTransactionWithAI_def sampleCompletion_def trim_def isSpace_def)

lemma envHealthy_run:
  "analyzeTransaction envHealthy sampleHash =
     (\<lparr>status = 200,
       body = [(''message'', ''Analysis complete!''),
               (''narrative'', ''A contract was created.''),
               (''chronicleTxHash'', ''0x77'')]\<rparr>,
      [ReadPending 1, GetTransaction, AICall,
       AddChronicle sampleHash ''A contract was created.'', WaitReceipt])"
  using analyzeTransaction_done [of sampleHash envHealthy "[ReadPending 1]" sampleTx
      "''A contract was created.''" "''0x77''" "()"]
    sampleHash_valid readsPendingNow_polled sampleCompletion_narrative
  by (simp add: envHealthy_def)

lemma envCommitRejected_run:
  "analyzeTransaction envCommitRejected sampleHash =
     (\<lparr>status = 500,
       body = [(''message'', ''An internal server error occurred.''),
               (''error'', ''execution reverted'')]\<rparr>,
      [ReadPending 1, GetTransaction, AICall,
       AddChronicle sampleHash ''A contract was created.''])"
  using analyzeTransaction_commit_failed [of sampleHash envCommitRejected "[ReadPending 1]" sampleTx
      "''A contract was created.''" "''execution reverted''"]
    sampleHash_valid readsPendingNow_polled sampleCompletion_narrative
  by (simp add: envCommitRejected_def envHealthy_def internalError_def)

text \<open>An empty \<^verbatim>\<open>content\<close> is not a failure: the narrative is the empty string.\<close>

lemma analyzeTransactionWithAI_empty_content:
  "analyzeTransactionWithAI
     (Inr \<lparr>ok = True, statusText = st,
            json = Inr (Completion (Some [Choice (Some (ChatMessage (Some [])))]))\<rparr>) = Inr []"
  by (simp add: analyzeTransactionWithAI_def trim_def)

text \<open>
  C4. When the handler has reached the narrative step and \<^verbatim>\<open>analyzeTransactionWithAI\<close>
  throws, the reply is the 500 error carrying the thrown message, one AI call has been
  made and no \<^verbatim>\<open>addChronicle\<close> call. The generator throws exactly when the fetch
  rejects, the answer is not \<^verbatim>\<open>ok\<close>, its body does not parse, \<^verbatim>\<open>choices\<close>,
  \<^verbatim>\<open>choices[0]\<close> or its \<^verbatim>\<open>message\<close> is missing, or the message has no content to trim.
\<close>

theorem analyzeTransaction_ai_failure_no_commit:
  assumes "truthy txHash" and "isHexString txHash 32"
    and "fst (waitForPendingRequest (pendingRequests env) 60 2000)"
    and "getTransaction env = Inr (Some tx)"
    and "isl (analyzeTransactionWithAI (fetchCompletion env tx))"
  shows "status (fst (analyzeTransaction env txHash)) = 500 \<and>
         (\<exists>err. analyzeTransactionWithAI (fetchCompletion env tx) = Inl err \<and>
                fst (analyzeTransaction env txHash) = internalError err) \<and>
         commitCalls (snd (analyzeTransaction env txHash)) = 0 \<and>
         aiCalls (snd (analyzeTransaction env txHash)) = 1 \<and>
         (case fetchCompletion env tx of
            Inl err \<Rightarrow> True
          | Inr response \<Rightarrow>
              \<not> ok response \<or>
              (case json response of
                 Inl err \<Rightarrow> True
               | Inr data \<Rightarrow>
                   (case choices data of
                      None \<Rightarrow> True
                    | Some [] \<Rightarrow> True
                    | Some (c # cs) \<Rightarrow>
                        (case message c of None \<Rightarrow> True | Some m \<Rightarrow> content m = None))))"
proof -
  obtain r polled where w: "waitForPendingRequest (pendingRequests env) 60 2000 = (r, polled)"
    by (cases "waitForPendingRequest (pendingRequests env) 60 2000")
  with assms(3) have w': "waitForPendingRequest (pendingRequests env) 60 2000 = (True, polled)"
    by simp
  from polled_calls [OF w] have p: "aiCalls polled = 0" "commitCalls polled = 0" by simp_all
  from assms(5) obtain err where e: "analyzeTransactionWithAI (fetchCompletion env tx) = Inl err"
    by (auto simp: isl_def)
  have run: "analyzeTransaction env txHash = (internalError err, polled @ [GetTransaction, AICall])"
    by (rule analyzeTransaction_ai_failed [OF assms(1) assms(2) w' assms(4) e])
  have shape: "case fetchCompletion env tx of
            Inl err \<Rightarrow> True
          | Inr response \<Rightarrow>
              \<not> ok response \<or>
              (case json response of
                 Inl err \<Rightarrow> True
               | Inr data \<Rightarrow>
                   (case choices data of
                      None \<Rightarrow> True
                    | Some [] \<Rightarrow> True
                    | Some (c # cs) \<Rightarrow>
                        (case message c of None \<Rightarrow> True | Some m \<Rightarrow> content m = None)))"
    using assms(5) by (simp only: analyzeTransactionWithAI_fails_iff)
  have "status (fst (analyzeTransaction env txHash)) = 500"
    unfolding run by (simp add: internalError_def)
  moreover have "\<exists>err. analyzeTransactionWithAI (fetchCompletion env tx) = Inl err \<and>
                fst (analyzeTransaction env txHash) = internalError err"
    using e run by simp
  moreover have "commitCalls (snd (analyzeTransaction env txHash)) = 0"
    unfolding run using p by simp
  moreover have "aiCalls (snd (analyzeTransaction env txHash)) = 1"
    unfolding run using p by simp
  ultimately show ?thesis using shape by blast
qed

theorem analyzeTransaction_ai_failure_no_commit_witness:
  "truthy sampleHash \<and> isHexString sampleHash 32 \<and>
   fst (waitForPendingRequest (pendingRequests envAIDown) 60 2000) \<and>
   getTransaction envAIDown = Inr (Some sampleTx) \<and>
   isl (analyzeTransactionWithAI (fetchCompletion envAIDown sampleTx)) \<and>
   status (fst (analyzeTransaction envAIDown sampleHash)) = 500 \<and>
   commitCalls (snd (analyzeTransaction envAIDown sampleHash)) = 0 \<and>
   fst (waitForPendingRequest (pendingRequests envNoMessage) 60 2000) \<and>
   getTransaction envNoMessage = Inr (Some sampleTx) \<and>
   isl (analyzeTransactionWithAI (fetchCompletion envNoMessage sampleTx)) \<and>
   status (fst (analyzeTransaction envNoMessage sampleHash)) = 500 \<and>
   commitCalls (snd (analyzeTransaction envNoMessage sampleHash)) = 0"
proof -
  have v: "truthy sampleHash" "isHexString sampleHash 32" using sampleHash_valid by simp_all
  have p1: "fst (waitForPendingRequest (pendingRequests envAIDown) 60 2000)"
    by (simp add: envAIDown_def envHealthy_def readsPendingNow_polled)
  have t1: "getTransaction envAIDown = Inr (Some sampleTx)"
    by (simp add: envAIDown_def envHealthy_def)
  have f1: "isl (analyzeTransactionWithAI (fetchCompletion envAIDown sampleTx))"
    by (simp add: envAIDown_def envHealthy_def analyzeTransactionWithAI_def)
  have p2: "fst (waitForPendingRequest (pendingRequests envNoMessage) 60 2000)"
    by (simp add: envNoMessage_def envHealthy_def readsPendingNow_polled)
  have t2: "getTransaction envNoMessage = Inr (Some sampleTx)"
    by (simp add: envNoMessage_def envHealthy_def)
  have f2: "isl (analyzeTransactionWithAI (fetchCompletion envNoMessage sampleTx))"
    by (simp add: envNoMessage_def envHealthy_def analyzeTransactionWithAI_def)
  from analyzeTransaction_ai_failure_no_commit [OF v p1 t1 f1]
       analyzeTransaction_ai_failure_no_commit [OF v p2 t2 f2]
       v p1 t1 f1 p2 t2 f2
  show ?thesis by blast
qed

text \<open>
  C5, as the code has it. When a narrative was generated and the commit then fails, in the
  submission or in the wait for its receipt, the single \<^verbatim>\<open>catch\<close> of the handler
  answers with status 500 and exactly two fields, the fixed message and the text of the
  error: the reply has no \<^verbatim>\<open>narrative\<close> field, and it is not the 200 reply that
  reports a stored chronicle. One submission was attempted.
\<close>

theorem analyzeTransaction_commit_failure_reply:
  assumes "truthy txHash" and "isHexString txHash 32"
    and "fst (waitForPendingRequest (pendingRequests env) 60 2000)"
    and "getTransaction env = Inr (Some tx)"
    and "analyzeTransactionWithAI (fetchCompletion env tx) = Inr narrative"
    and "addChronicle env narrative = Inl err \<or>
         (\<exists>h. addChronicle env narrative = Inr h \<and> waitReceipt env = Inl err)"
  shows "fst (analyzeTransaction env txHash) =
           \<lparr>status = 500,
            body = [(''message'', ''An internal server error occurred.''), (''error'', err)]\<rparr> \<and>
         map_of (body (fst (analyzeTransaction env txHash))) ''narrative'' = None \<and>
         status (fst (analyzeTransaction env txHash)) \<noteq> 200 \<and>
         commitCalls (snd (analyzeTransaction env txHash)) = 1"
proof -
  obtain r polled where w: "waitForPendingRequest (pendingRequests env) 60 2000 = (r, polled)"
    by (cases "waitForPendingRequest (pendingRequests env) 60 2000")
  with assms(3) have w': "waitForPendingRequest (pendingRequests env) 60 2000 = (True, polled)"
    by simp
  from polled_calls [OF w] have p: "commitCalls polled = 0" by simp
  from assms(6) show ?thesis
  proof
    assume c: "addChronicle env narrative = Inl err"
    have run: "analyzeTransaction env txHash =
        (internalError err, polled @ [GetTransaction, AICall, AddChronicle txHash narrative])"
      by (rule analyzeTransaction_commit_failed [OF assms(1) assms(2) w' assms(4) assms(5) c])
    show ?thesis unfolding run using p by (simp add: internalError_def)
  next
    assume "\<exists>h. addChronicle env narrative = Inr h \<and> waitReceipt env = Inl err"
    then obtain h where c: "addChronicle env narrative = Inr h" and e: "waitReceipt env = Inl err"
      by blast
    have run: "analyzeTransaction env txHash =
        (internalError err,
         polled @ [GetTransaction, AICall, AddChronicle txHash narrative, WaitReceipt])"
      by (rule analyzeTransaction_receipt_failed [OF assms(1) assms(2) w' assms(4) assms(5) c e])
    show ?thesis unfolding run using p by (simp add: internalError_def)
  qed
qed

theorem analyzeTransaction_commit_failure_reply_witness:
  "truthy sampleHash \<and> isHexString sampleHash 32 \<and>
   fst (waitForPendingRequest (pendingRequests envCommitRejected) 60 2000) \<and>
   getTransaction envCommitRejected = Inr (Some sampleTx) \<and>
   analyzeTransactionWithAI (fetchCompletion envCommitRejected sampleTx) =
     Inr ''A contract was created.'' \<and>
   addChronicle envCommitRejected ''A contract was created.'' = Inl ''execution reverted'' \<and>
   fst (analyzeTransaction envCommitRejected sampleHash) =
     \<lparr>status = 500,
      body = [(''message'', ''An internal server error occurred.''),
              (''error'', ''execution reverted'')]\<rparr> \<and>
   commitCalls (snd (analyzeTransaction envCommitRejected sampleHash)) = 1"
proof -
  have v: "truthy sampleHash" "isHexString sampleHash 32" using sampleHash_valid by simp_all
  have p: "fst (waitForPendingRequest (pendingRequests envCommitRejected) 60 2000)"
    by (simp add: envCommitRejected_def envHealthy_def readsPendingNow_polled)
  have t: "getTransaction envCommitRejected = Inr (Some sampleTx)"
    by (simp add: envCommitRejected_def envHealthy_def)
  have n: "analyzeTransactionWithAI (fetchCompletion envCommitRejected sampleTx) =
      Inr ''A contract was created.''"
    using sampleCompletion_narrative by (simp add: envCommitRejected_def envHealthy_def)
  have c: "addChronicle envCommitRejected ''A contract was created.'' = Inl ''execution reverted''"
    by (simp add: envCommitRejected_def)
  from analyzeTransaction_commit_failure_reply [OF v p t n disjI1 [OF c]] v p t n c
  show ?thesis by blast
qed

text \<open>
  C5, as the specification has it, fails: the narrative was generated, the submission is
  rejected, and the narrative occurs nowhere in the reply.
\<close>

theorem analyzeTransaction_commit_failure_counterexample:
  "analyzeTransactionWithAI (fetchCompletion envCommitRejected sampleTx) =
     Inr ''A contract was created.'' \<and>
   addChronicle envCommitRejected ''A contract was created.'' = Inl ''execution reverted'' \<and>
   analyzeTransaction envCommitRejected sampleHash =
     (\<lparr>status = 500,
       body = [(''message'', ''An internal server error occurred.''),
               (''error'', ''execution reverted'')]\<rparr>,
      [ReadPending 1, GetTransaction, AICall,
       AddChronicle sampleHash ''A contract was created.'']) \<and>
   map_of (body (fst (analyzeTransaction envCommitRejected sampleHash))) ''narrative'' = None \<and>
   ''A contract was created.'' \<notin> snd ` set (body (fst (analyzeTransaction envCommitRejected sampleHash)))"
proof -
  have n: "analyzeTransactionWithAI (fetchCompletion envCommitRejected sampleTx) =
      Inr ''A contract was created.''"
    using sampleCompletion_narrative by (simp add: envCommitRejected_def envHealthy_def)
  have c: "addChronicle envCommitRejected ''A contract was created.'' = Inl ''execution reverted''"
    by (simp add: envCommitRejected_def)
  show ?thesis using n c unfolding envCommitRejected_run by simp
qed

lemma interleavedRuns_shuffle:
  "interleavedRuns \<in> shuffles (snd (analyzeTransaction envHealthy sampleHash))
                               (snd (analyzeTransaction envCommitRejected sampleHash))"
  unfolding envHealthy_run envCommitRejected_run interleavedRuns_def snd_conv
  apply (rule Cons_in_shuffles_leftI, rule Cons_in_shuffles_rightI)
  apply (rule Cons_in_shuffles_leftI, rule Cons_in_shuffles_rightI)
  apply (rule Cons_in_shuffles_leftI, rule Cons_in_shuffles_rightI)
  apply (rule Cons_in_shuffles_leftI, rule Cons_in_shuffles_rightI)
  apply (rule Cons_in_shuffles_leftI)
  apply (rule Nil_in_shufflesI; rule refl)
  done

lemma interleavedRuns_calls: "aiCalls interleavedRuns = 2 \<and> commitCalls interleavedRuns = 2"
  by (simp add: interleavedRuns_def)

text \<open>
  C1, as the code has it. One invocation of the handler makes at most one AI call and at
  most one \<^verbatim>\<open>addChronicle\<close> submission. The handler keeps no attempt flag and no record
  of runs in progress: its calls depend on its own answers only, so in every interleaving
  of two invocations the calls of the second come on top of those of the first, and two
  invocations for one hash that both get as far as the commit make two AI calls and two
  submissions. The only guard is in the client: \<^verbatim>\<open>analyzeWithBackend\<close> posts nothing when
  the \<open>hasAnalyzed\<close> value it reads is true, and posts one request otherwise.
\<close>

theorem analyzeTransaction_once_per_invocation:
  "aiCalls (snd (analyzeTransaction env txHash)) \<le> 1 \<and>
   commitCalls (snd (analyzeTransaction env txHash)) \<le> 1 \<and>
   analyzeWithBackend True txHash fetched = [] \<and>
   posts (analyzeWithBackend False txHash fetched) = 1 \<and>
   (\<forall>t \<in> shuffles (snd (analyzeTransaction env txHash)) (snd (analyzeTransaction env' txHash)).
      aiCalls t = aiCalls (snd (analyzeTransaction env txHash)) +
                  aiCalls (snd (analyzeTransaction env' txHash)) \<and>
      commitCalls t = commitCalls (snd (analyzeTransaction env txHash)) +
                      commitCalls (snd (analyzeTransaction env' txHash))) \<and>
   (truthy txHash \<and> isHexString txHash 32 \<and> reachesCommit env \<and> reachesCommit env' \<longrightarrow>
      (\<forall>t \<in> shuffles (snd (analyzeTransaction env txHash)) (snd (analyzeTransaction env' txHash)).
         aiCalls t = 2 \<and> commitCalls t = 2))"
proof -
  let ?a = "snd (analyzeTransaction env txHash)" and ?b = "snd (analyzeTransaction env' txHash)"
  have once: "aiCalls ?a \<le> 1 \<and> commitCalls ?a \<le> 1"
    by (rule analyzeTransaction_at_most_once)
  have guard: "analyzeWithBackend True txHash fetched = []"
    by (simp add: analyzeWithBackend_def)
  have one: "posts (analyzeWithBackend False txHash fetched) = 1"
    by (simp add: analyzeWithBackend_def posts_def analysisFailed_def split: sum.splits)
  have sum: "aiCalls t = aiCalls ?a + aiCalls ?b \<and> commitCalls t = commitCalls ?a + commitCalls ?b"
    if "t \<in> shuffles ?a ?b" for t
    using shuffles_count [OF that] unfolding aiCalls_def commitCalls_def by blast
  have two: "aiCalls t = 2 \<and> commitCalls t = 2"
    if "truthy txHash \<and> isHexString txHash 32 \<and> reachesCommit env \<and> reachesCommit env'"
      and "t \<in> shuffles ?a ?b" for t
  proof -
    from that(1) reachesCommit_calls [of txHash env] reachesCommit_calls [of txHash env']
    have "aiCalls ?a = 1 \<and> commitCalls ?a = 1 \<and> aiCalls ?b = 1 \<and> commitCalls ?b = 1" by blast
    with sum [OF that(2)] show ?thesis by simp
  qed
  from once guard one sum two show ?thesis by blast
qed

theorem analyzeTransaction_once_per_invocation_witness:
  "truthy sampleHash \<and> isHexString sampleHash 32 \<and>
   reachesCommit envHealthy \<and> reachesCommit envCommitRejected \<and>
   interleavedRuns \<in> shuffles (snd (analyzeTransaction envHealthy sampleHash))
                               (snd (analyzeTransaction envCommitRejected sampleHash)) \<and>
   aiCalls interleavedRuns = 2 \<and> commitCalls interleavedRuns = 2"
proof -
  have v: "truthy sampleHash \<and> isHexString sampleHash 32" by (rule sampleHash_valid)
  have r1: "reachesCommit envHealthy"
    using sampleCompletion_narrative
    by (simp add: reachesCommit_def envHealthy_def readsPendingNow_polled)
  have r2: "reachesCommit envCommitRejected"
    using sampleCompletion_narrative
    by (simp add: reachesCommit_def envCommitRejected_def envHealthy_def readsPendingNow_polled)
  note m = interleavedRuns_shuffle
  note both = analyzeTransaction_once_per_invocation
    [of envHealthy sampleHash "Inl ''offline''" envCommitRejected,
     THEN conjunct2, THEN conjunct2, THEN conjunct2, THEN conjunct2, THEN conjunct2, rule_format]
  have "aiCalls interleavedRuns = 2 \<and> commitCalls interleavedRuns = 2"
    by (rule both) (use v r1 r2 m in blast)+
  with v r1 r2 m show ?thesis by blast
qed

text \<open>
  C1, as the specification has it, fails. A second invocation for the same hash enters
  while the first is still polling; both see the pending request, and the trace of the
  two runs holds two AI calls and two \<^verbatim>\<open>addChronicle\<close> submissions, the second of which
  the ledger rejects.
\<close>

theorem analyzeTransaction_reentry_counterexample:
  "interleavedRuns \<in> shuffles (snd (analyzeTransaction envHealthy sampleHash))
                               (snd (analyzeTransaction envCommitRejected sampleHash)) \<and>
   status (fst (analyzeTransaction envHealthy sampleHash)) = 200 \<and>
   aiCalls (snd (analyzeTransaction envCommitRejected sampleHash)) = 1 \<and>
   commitCalls (snd (analyzeTransaction envCommitRejected sampleHash)) = 1 \<and>
   aiCalls interleavedRuns = 2 \<and> commitCalls interleavedRuns = 2"
proof -
  note m = interleavedRuns_shuffle
  note c = interleavedRuns_calls
  have s: "status (fst (analyzeTransaction envHealthy sampleHash)) = 200"
    unfolding envHealthy_run by simp
  have b: "aiCalls (snd (analyzeTransaction envCommitRejected sampleHash)) = 1 \<and>
           commitCalls (snd (analyzeTransaction envCommitRejected sampleHash)) = 1"
    unfolding envCommitRejected_run by simp
  from m s b c show ?thesis by blast
qed

section \<open>Properties of the chunked scan\<close>

lemma chunks_Nil: "currentBlock < fromBlock \<Longrightarrow> chunks fromBlock currentBlock = []"
  by (simp add: chunks.simps)

lemma chunks_Cons:
  "fromBlock \<le> currentBlock \<Longrightarrow>
   chunks fromBlock currentBlock =
     (fromBlock, min (fromBlock + 999) currentBlock) # chunks (fromBlock + 1000) currentBlock"
  by (subst chunks.simps) (simp add: CHUNK_SIZE_def)

lemma chunks_cover:
  "concat (map (\<lambda>(f, t). [f..t]) (chunks fromBlock currentBlock)) = [fromBlock..currentBlock]"
proof (induction fromBlock currentBlock rule: chunks.induct)
  case (1 fromBlock currentBlock)
  show ?case
  proof (cases "fromBlock \<le> currentBlock")
    case False
    then show ?thesis by (simp add: chunks_Nil)
  next
    case True
    note IH = "1.IH" [OF True, unfolded CHUNK_SIZE_def]
    note c = chunks_Cons [OF True]
    show ?thesis
    proof (cases "fromBlock + 999 < currentBlock")
      case True
      have m: "min (fromBlock + 999) currentBlock = fromBlock + 999" using True by simp
      have "[fromBlock..currentBlock] =
            [fromBlock..fromBlock + 999] @ [fromBlock + 999 + 1..currentBlock]"
        by (rule upto_split2) (use True in simp_all)
      also have "fromBlock + 999 + 1 = fromBlock + 1000" by simp
      finally show ?thesis unfolding c m using IH by simp
    next
      case False
      then have m: "min (fromBlock + 999) currentBlock = currentBlock" by simp
      have "chunks (fromBlock + 1000) currentBlock = []"
        by (rule chunks_Nil) (use False in simp)
      then show ?thesis unfolding c m by simp
    qed
  qed
qed

lemma chunks_bounds:
  "(f, t) \<in> set (chunks fromBlock currentBlock) \<Longrightarrow>
   fromBlock \<le> f \<and> f \<le> t \<and> t = min (f + 999) currentBlock"
proof (induction fromBlock currentBlock rule: chunks.induct)
  case (1 fromBlock currentBlock)
  show ?case
  proof (cases "fromBlock \<le> currentBlock")
    case False
    with "1.prems" show ?thesis by (simp add: chunks_Nil)
  next
    case True
    note IH = "1.IH" [OF True, unfolded CHUNK_SIZE_def]
    from "1.prems"
    have "(f, t) = (fromBlock, min (fromBlock + 999) currentBlock) \<or>
          (f, t) \<in> set (chunks (fromBlock + 1000) currentBlock)"
      unfolding chunks_Cons [OF True] by simp
    then show ?thesis
    proof
      assume "(f, t) = (fromBlock, min (fromBlock + 999) currentBlock)"
      with True show ?thesis by auto
    next
      assume "(f, t) \<in> set (chunks (fromBlock + 1000) currentBlock)"
      from IH [OF this] have "fromBlock + 1000 \<le> f" "f \<le> t" "t = min (f + 999) currentBlock"
        by blast+
      then show ?thesis by linarith
    qed
  qed
qed

text \<open>Every chunk but the last is 1000 blocks wide, and the next one starts right after it.\<close>

lemma chunks_consecutive:
  "Suc i < length (chunks fromBlock currentBlock) \<Longrightarrow>
   snd (chunks fromBlock currentBlock ! i) = fst (chunks fromBlock currentBlock ! i) + 999 \<and>
   fst (chunks fromBlock currentBlock ! Suc i) = snd (chunks fromBlock currentBlock ! i) + 1"
proof (induction fromBlock currentBlock arbitrary: i rule: chunks.induct)
  case (1 fromBlock currentBlock)
  show ?case
  proof (cases "fromBlock \<le> currentBlock")
    case False
    with "1.prems" show ?thesis by (simp add: chunks_Nil)
  next
    case True
    note IH = "1.IH" [OF True, unfolded CHUNK_SIZE_def]
    have c: "chunks fromBlock currentBlock =
        (fromBlock, min (fromBlock + 999) currentBlock) # chunks (fromBlock + 1000) currentBlock"
      by (rule chunks_Cons [OF True])
    from "1.prems" c have ne: "chunks (fromBlock + 1000) currentBlock \<noteq> []" by auto
    then have more: "fromBlock + 1000 \<le> currentBlock"
      using chunks_Nil [of currentBlock "fromBlock + 1000"] by fastforce
    have next_c: "chunks (fromBlock + 1000) currentBlock =
        (fromBlock + 1000, min (fromBlock + 1000 + 999) currentBlock) #
        chunks (fromBlock + 1000 + 1000) currentBlock"
      by (rule chunks_Cons [OF more])
    show ?thesis
    proof (cases i)
      case 0
      show ?thesis unfolding 0 c next_c using more by (simp add: min_def)
    next
      case (Suc j)
      with "1.prems" c have "Suc j < length (chunks (fromBlock + 1000) currentBlock)" by simp
      from IH [OF this] show ?thesis unfolding Suc c by simp
    qed
  qed
qed

text \<open>Every block of the range lies in exactly one chunk, every other block in none.\<close>

lemma chunks_once:
  "length (filter (\<lambda>(f, t). f \<le> n \<and> n \<le> t) (chunks fromBlock currentBlock)) =
     (if fromBlock \<le> n \<and> n \<le> currentBlock then 1 else 0)"
proof (induction fromBlock currentBlock rule: chunks.induct)
  case (1 fromBlock currentBlock)
  show ?case
  proof (cases "fromBlock \<le> currentBlock")
    case False
    then show ?thesis by (simp add: chunks_Nil)
  next
    case True
    note IH = "1.IH" [OF True, unfolded CHUNK_SIZE_def]
    show ?thesis
      unfolding chunks_Cons [OF True] using True IH by (auto simp: min_def)
  qed
qed

lemma eventsIn_chunks:
  "concat (map (\<lambda>(f, t). eventsIn chain f t) (chunks fromBlock currentBlock)) =
     eventsIn chain fromBlock currentBlock"
proof -
  have "concat (map (\<lambda>(f, t). eventsIn chain f t) cs) =
        concat (map chain (concat (map (\<lambda>(f, t). [f..t]) cs)))" for cs :: "(int \<times> int) list"
    by (induction cs) (auto simp: eventsIn_def)
  then show ?thesis by (simp add: chunks_cover eventsIn_def)
qed

lemma addUsers_append:
  "addUsers (xs @ ys) s = addUsers ys (addUsers xs s)"
  by (induction xs arbitrary: s) simp_all

lemma scanRequests_deterministic:
  "\<forall>f t. queryRequestSubmitted l f t = Inr (eventsIn chain f t) \<Longrightarrow>
   scanRequests l cs s = addUsers (concat (map (\<lambda>(f, t). eventsIn chain f t) cs)) s"
  by (induction cs arbitrary: s) (auto simp: addUsers_append)

lemma storeChronicles_append:
  "\<forall>e \<in> set xs. \<not> enrichmentFails e \<Longrightarrow>
   storeChronicles (xs @ ys) m = storeChronicles ys (storeChronicles xs m)"
  by (induction xs arbitrary: m)
     (auto simp: enrichmentFails_def retained_def isl_def split: option.splits sum.splits)

lemma scanChronicles_deterministic:
  "\<forall>f t. queryChronicleAdded l f t = Inr (eventsIn chain f t) \<Longrightarrow>
   \<forall>n. \<forall>e \<in> set (chain n). \<not> enrichmentFails e \<Longrightarrow>
   scanChronicles l cs m = storeChronicles (concat (map (\<lambda>(f, t). eventsIn chain f t) cs)) m"
proof (induction cs arbitrary: m)
  case Nil
  then show ?case by simp
next
  case (Cons c cs)
  obtain f t where c: "c = (f, t)" by (cases c)
  have ok: "\<forall>e \<in> set (eventsIn chain f t). \<not> enrichmentFails e"
    using Cons.prems(2) by (auto simp: eventsIn_def)
  show ?case
    using Cons.IH [OF Cons.prems] Cons.prems(1) ok
    by (simp add: c storeChronicles_append)
qed

section \<open>Properties of the two listings\<close>

lemma set_setAdd [simp]: "set (setAdd x xs) = insert x (set xs)"
  by (auto simp: setAdd_def)

lemma distinct_setAdd [simp]: "distinct (setAdd x xs) = distinct xs"
  by (auto simp: setAdd_def)

lemma usersOf_simps [simp]:
  "usersOf [] = {}"
  "usersOf (event # events) =
     (case requestArgs event of
        None \<Rightarrow> {}
      | Some a \<Rightarrow> if truthy (arg_user a) then {arg_user a} else {}) \<union> usersOf events"
proof -
  show "usersOf [] = {}" by (simp add: usersOf_def)
  show "usersOf (event # events) =
     (case requestArgs event of
        None \<Rightarrow> {}
      | Some a \<Rightarrow> if truthy (arg_user a) then {arg_user a} else {}) \<union> usersOf events"
    by (cases "requestArgs event") (auto simp add: usersOf_def simp del: set_concat)
qed

lemma set_addUsers: "set (addUsers events s) = set s \<union> usersOf events"
  by (induction events arbitrary: s) (auto split: option.splits)

lemma distinct_addUsers: "distinct s \<Longrightarrow> distinct (addUsers events s)"
  by (induction events arbitrary: s) (auto split: option.splits)

lemma set_scanRequests:
  "set (scanRequests l cs s) =
     set s \<union> (\<Union>(f, t) \<in> set cs.
                case queryRequestSubmitted l f t of Inl err \<Rightarrow> {} | Inr events \<Rightarrow> usersOf events)"
proof (induction cs arbitrary: s)
  case Nil
  show ?case by simp
next
  case (Cons c cs)
  obtain f t where c: "c = (f, t)" by (cases c)
  show ?case
    by (cases "queryRequestSubmitted l f t") (simp_all add: c Cons.IH set_addUsers Un_assoc)
qed

lemma distinct_scanRequests: "distinct s \<Longrightarrow> distinct (scanRequests l cs s)"
  by (induction cs arbitrary: s) (auto simp: distinct_addUsers split: sum.splits)



text \<open>The keys of the chronicle map.\<close>

lemma hashesOf_simps [simp]:
  "hashesOf [] = {}"
  "hashesOf (event # events) =
     (case chronicleArgs event of
        None \<Rightarrow> {}
      | Some a \<Rightarrow>
          if truthy (arg_txHash a) \<and> truthy (arg_narrative a) \<and> truthy (arg_requester a)
          then {arg_txHash a} else {}) \<union> hashesOf events"
proof -
  show "hashesOf [] = {}" by (simp add: hashesOf_def)
  show "hashesOf (event # events) =
     (case chronicleArgs event of
        None \<Rightarrow> {}
      | Some a \<Rightarrow>
          if truthy (arg_txHash a) \<and> truthy (arg_narrative a) \<and> truthy (arg_requester a)
          then {arg_txHash a} else {}) \<union> hashesOf events"
    by (cases "chronicleArgs event") (auto simp add: hashesOf_def simp del: set_concat)
qed

lemma storeChronicles_until_failure:
  "storeChronicles events m = storeChronicles (takeWhile (\<lambda>e. \<not> enrichmentFails e) events) m"
  by (induction events arbitrary: m)
     (auto simp: enrichmentFails_def retained_def split: option.splits sum.splits)

lemma keys_storeChronicles_sound:
  "\<forall>e \<in> set events. \<not> enrichmentFails e \<Longrightarrow>
   fst ` set (storeChronicles events m) = fst ` set m \<union> hashesOf events"
proof (induction events arbitrary: m)
  case Nil
  then show ?case by simp
next
  case (Cons event events)
  then have rest: "\<forall>e \<in> set events. \<not> enrichmentFails e" and here: "\<not> enrichmentFails event"
    by simp_all
  note IH = Cons.IH [OF rest]
  show ?case
  proof (cases "retained event")
    case False
    then show ?thesis using IH by (auto simp: retained_def split: option.splits)
  next
    case True
    then obtain a where a: "chronicleArgs event = Some a"
      and t: "truthy (arg_txHash a) \<and> truthy (arg_narrative a) \<and> truthy (arg_requester a)"
      by (auto simp: retained_def split: option.splits)
    from here True obtain b where b: "getBlock event = Inr b"
      by (cases "getBlock event") (auto simp: enrichmentFails_def)
    show ?thesis using a t b True IH by (simp add: dom_update)
  qed
qed

lemma keys_storeChronicles:
  "fst ` set (storeChronicles events m) =
     fst ` set m \<union> hashesOf (takeWhile (\<lambda>e. \<not> enrichmentFails e) events)"
proof -
  have "\<forall>e \<in> set (takeWhile (\<lambda>e. \<not> enrichmentFails e) events). \<not> enrichmentFails e"
    by (auto dest: set_takeWhileD)
  from keys_storeChronicles_sound [OF this] show ?thesis
    by (subst storeChronicles_until_failure) simp
qed

lemma keys_scanChronicles:
  "fst ` set (scanChronicles l cs m) =
     fst ` set m \<union>
     (\<Union>(f, t) \<in> set cs.
        case queryChronicleAdded l f t of
          Inl err \<Rightarrow> {}
        | Inr events \<Rightarrow> hashesOf (takeWhile (\<lambda>e. \<not> enrichmentFails e) events))"
proof (induction cs arbitrary: m)
  case Nil
  show ?case by simp
next
  case (Cons c cs)
  obtain f t where c: "c = (f, t)" by (cases c)
  show ?case
    by (cases "queryChronicleAdded l f t")
       (simp_all add: c Cons.IH keys_storeChronicles Un_assoc)
qed

text \<open>Every entry of the map is filed under its own hash.\<close>

lemma in_update_cases: "p \<in> set (AList.update k v al) \<Longrightarrow> p = (k, v) \<or> p \<in> set al"
  by (induction al) (auto split: if_splits)

lemma storeChronicles_keyed:
  "\<forall>(k, c) \<in> set m. c_txHash c = k \<Longrightarrow> \<forall>(k, c) \<in> set (storeChronicles events m). c_txHash c = k"
proof (induction events arbitrary: m)
  case Nil
  then show ?case by simp
next
  case (Cons event events)
  show ?case
  proof (cases "chronicleArgs event")
    case None
    then show ?thesis using Cons.IH [OF Cons.prems] by simp
  next
    case (Some a)
    show ?thesis
    proof (cases "getBlock event")
      case (Inl err)
      then show ?thesis using Some Cons.IH [OF Cons.prems] Cons.prems by simp
    next
      case (Inr b)
      let ?m = "AList.update (arg_txHash a)
          \<lparr>c_txHash = arg_txHash a, c_narrative = arg_narrative a,
           c_requester = arg_requester a, c_timestamp = block_timestamp b\<rparr> m"
      have "\<forall>(k, c) \<in> set ?m. c_txHash c = k"
        using Cons.prems by (auto dest!: in_update_cases)
      from Cons.IH [OF this] Cons.IH [OF Cons.prems] show ?thesis
        using Some Inr by simp
    qed
  qed
qed

lemma scanChronicles_keyed:
  "\<forall>(k, c) \<in> set m. c_txHash c = k \<Longrightarrow> \<forall>(k, c) \<in> set (scanChronicles l cs m). c_txHash c = k"
proof (induction cs arbitrary: m)
  case Nil
  then show ?case by simp
next
  case (Cons c cs)
  obtain f t where c: "c = (f, t)" by (cases c)
  show ?case
  proof (cases "queryChronicleAdded l f t")
    case (Inl err)
    then show ?thesis using Cons.IH [OF Cons.prems] by (simp add: c)
  next
    case (Inr events)
    from Cons.IH [OF storeChronicles_keyed [OF Cons.prems, of events]] show ?thesis
      using Inr by (simp add: c)
  qed
qed

lemma listed_hashes:
  assumes "\<forall>(k, c) \<in> set m. c_txHash c = k"
  shows "c_txHash ` set (sort_key (\<lambda>c. - int (c_timestamp c)) (map snd m)) = fst ` set m"
proof -
  have "c_txHash ` snd ` set m = fst ` set m"
    using assms by (force simp: image_iff)
  then show ?thesis by simp
qed



lemma getChronicles_listed:
  assumes "getBlockNumber l = Inr currentBlock"
  shows "\<exists>listing. getChronicles l = Success listing \<and>
           total listing = length (chronicles listing) \<and>
           c_txHash ` set (chronicles listing) = fst ` set (chroniclesMapOf l currentBlock)"
proof -
  have "\<forall>(k, c) \<in> set (chroniclesMapOf l currentBlock). c_txHash c = k"
    unfolding chroniclesMapOf_def by (rule scanChronicles_keyed) simp
  from listed_hashes [OF this] show ?thesis
    using assms by (simp add: getChronicles_def Let_def)
qed

text \<open>What the entries of the map are.\<close>

lemma chronicleOf_not_failing:
  "chronicleOf e = Some c \<Longrightarrow> \<not> enrichmentFails e"
  by (auto simp: chronicleOf_def enrichmentFails_def split: option.splits if_splits sum.splits)

lemma values_storeChronicles:
  "(k, c) \<in> set (storeChronicles events m) \<Longrightarrow>
   (k, c) \<in> set m \<or>
   (\<exists>e \<in> set (takeWhile (\<lambda>e. \<not> enrichmentFails e) events). chronicleOf e = Some c)"
proof (induction events arbitrary: m)
  case Nil
  then show ?case by simp
next
  case (Cons event events)
  show ?case
  proof (cases "enrichmentFails event")
    case True
    then have "storeChronicles (event # events) m = m"
      by (auto simp: enrichmentFails_def retained_def isl_def split: option.splits)
    with Cons.prems show ?thesis by simp
  next
    case False
    show ?thesis
    proof (cases "chronicleOf event")
      case None
      with False have "storeChronicles (event # events) m = storeChronicles events m"
        by (auto simp: chronicleOf_def enrichmentFails_def retained_def isl_def
            split: option.splits sum.splits if_splits)
      with Cons.prems Cons.IH [of m] False show ?thesis by auto
    next
      case (Some v)
      then have "storeChronicles (event # events) m =
          storeChronicles events (AList.update (c_txHash v) v m)"
        by (auto simp: chronicleOf_def split: option.splits sum.splits if_splits)
      with Cons.prems Cons.IH [of "AList.update (c_txHash v) v m"]
      have "(k, c) \<in> set (AList.update (c_txHash v) v m) \<or>
            (\<exists>e \<in> set (takeWhile (\<lambda>e. \<not> enrichmentFails e) events). chronicleOf e = Some c)"
        by simp
      then show ?thesis
      proof
        assume "(k, c) \<in> set (AList.update (c_txHash v) v m)"
        from in_update_cases [OF this] Some False show ?thesis by auto
      next
        assume "\<exists>e \<in> set (takeWhile (\<lambda>e. \<not> enrichmentFails e) events). chronicleOf e = Some c"
        with False show ?thesis by auto
      qed
    qed
  qed
qed




text \<open>The conversion of the counters.\<close>

lemma Number_exact: "n \<le> 9007199254740992 \<Longrightarrow> Number n = n"
  by (simp add: Number_def)

lemma bitLength_lower: "0 < n \<Longrightarrow> 2 ^ (bitLength n - 1) \<le> n"
proof (induction n rule: bitLength.induct)
  case (1 n)
  show ?case
  proof (cases "n div 2 = 0")
    case True
    with "1.prems" have "n = 1" by (simp add: div_eq_0_iff)
    then show ?thesis by (simp add: bitLength.simps)
  next
    case False
    then have pos: "0 < n div 2" by simp
    from "1.prems" have n0: "n \<noteq> 0" by simp
    have step: "bitLength n = Suc (bitLength (n div 2))"
      using n0 by (subst bitLength.simps) simp
    have "bitLength (n div 2) \<noteq> 0"
      using False by (subst bitLength.simps) simp
    then have "2 ^ bitLength (n div 2) = 2 * 2 ^ (bitLength (n div 2) - 1)"
      by (cases "bitLength (n div 2)") simp_all
    also have "\<dots> \<le> 2 * (n div 2)"
      using "1.IH" [OF n0 pos] by simp
    also have "\<dots> \<le> n" by simp
    finally show ?thesis by (simp add: step)
  qed
qed

lemma Number_positive: "0 < n \<Longrightarrow> 0 < Number n"
proof (cases "n \<le> 9007199254740992")
  case True
  assume "0 < n"
  with True show ?thesis by (simp add: Number_def)
next
  case False
  assume pos: "0 < n"
  define e where "e = bitLength n - 53"
  have "(2::nat) ^ e \<le> 2 ^ (bitLength n - 1)"
    unfolding e_def by (rule power_increasing) simp_all
  also have "\<dots> \<le> n" by (rule bitLength_lower [OF pos])
  finally have "2 ^ e \<le> n" .
  then have q: "0 < n div 2 ^ e" by (simp add: div_greater_zero_iff)
  show ?thesis
    using False q by (simp add: Number_def Let_def e_def [symmetric])
qed

lemma Number_zero_iff: "Number n = 0 \<longleftrightarrow> n = 0"
  using Number_positive [of n] by (cases "n = 0") (simp_all add: Number_def)

text \<open>The sample chain, block by block.\<close>

lemma eventsIn_empty:
  "(\<And>n. a \<le> n \<Longrightarrow> n \<le> b \<Longrightarrow> chain n = []) \<Longrightarrow> eventsIn chain a b = []"
  by (simp add: eventsIn_def)

lemma eventsIn_split:
  "a \<le> n \<Longrightarrow> n \<le> b \<Longrightarrow>
   eventsIn chain a b = eventsIn chain a (n - 1) @ chain n @ eventsIn chain (n + 1) b"
  by (simp add: eventsIn_def upto_split3)

lemma eventsIn_sampleChain:
  "eventsIn sampleChain 0 2000 =
     [sampleRequest ''0xA'', sampleRequest ''0xB'', sampleRequest ''0xA'', sampleRequest ''0xC'']"
proof -
  have a: "eventsIn sampleChain 0 (5 - 1) = []"
    by (rule eventsIn_empty) (simp add: sampleChain_def)
  have b: "eventsIn sampleChain (5 + 1) (1500 - 1) = []"
    by (rule eventsIn_empty) (simp add: sampleChain_def)
  have c: "eventsIn sampleChain (1500 + 1) (2000 - 1) = []"
    by (rule eventsIn_empty) (simp add: sampleChain_def)
  have d: "eventsIn sampleChain (2000 + 1) 2000 = []"
    by (rule eventsIn_empty) simp
  have "eventsIn sampleChain 0 2000 =
      eventsIn sampleChain 0 (5 - 1) @ sampleChain 5 @ eventsIn sampleChain (5 + 1) 2000"
    by (rule eventsIn_split) simp_all
  also have "eventsIn sampleChain (5 + 1) 2000 =
      eventsIn sampleChain (5 + 1) (1500 - 1) @ sampleChain 1500 @
      eventsIn sampleChain (1500 + 1) 2000"
    by (rule eventsIn_split) simp_all
  also have "eventsIn sampleChain (1500 + 1) 2000 =
      eventsIn sampleChain (1500 + 1) (2000 - 1) @ sampleChain 2000 @
      eventsIn sampleChain (2000 + 1) 2000"
    by (rule eventsIn_split) simp_all
  finally have "eventsIn sampleChain 0 2000 =
      sampleChain 5 @ sampleChain 1500 @ sampleChain 2000"
    unfolding a b c d by simp
  moreover have "sampleChain 5 = [sampleRequest ''0xA'']"
    "sampleChain 1500 = [sampleRequest ''0xB'', sampleRequest ''0xA'']"
    "sampleChain 2000 = [sampleRequest ''0xC'']"
    by (simp_all add: sampleChain_def)
  ultimately show ?thesis by simp
qed

lemma eventsIn_sampleAddedChain:
  "eventsIn sampleAddedChain 0 2000 =
     [sampleAdded ''0x01'' (Inr \<lparr>block_timestamp = 100\<rparr>),
      sampleAdded ''0x04'' (Inr \<lparr>block_timestamp = 200\<rparr>)]"
proof -
  have a: "eventsIn sampleAddedChain 0 (7 - 1) = []"
    by (rule eventsIn_empty) (simp add: sampleAddedChain_def)
  have b: "eventsIn sampleAddedChain (7 + 1) (1200 - 1) = []"
    by (rule eventsIn_empty) (simp add: sampleAddedChain_def)
  have c: "eventsIn sampleAddedChain (1200 + 1) 2000 = []"
    by (rule eventsIn_empty) (simp add: sampleAddedChain_def)
  have "eventsIn sampleAddedChain 0 2000 =
      eventsIn sampleAddedChain 0 (7 - 1) @ sampleAddedChain 7 @
      eventsIn sampleAddedChain (7 + 1) 2000"
    by (rule eventsIn_split) simp_all
  also have "eventsIn sampleAddedChain (7 + 1) 2000 =
      eventsIn sampleAddedChain (7 + 1) (1200 - 1) @ sampleAddedChain 1200 @
      eventsIn sampleAddedChain (1200 + 1) 2000"
    by (rule eventsIn_split) simp_all
  finally have "eventsIn sampleAddedChain 0 2000 = sampleAddedChain 7 @ sampleAddedChain 1200"
    unfolding a b c by simp
  moreover have "sampleAddedChain 7 = [sampleAdded ''0x01'' (Inr \<lparr>block_timestamp = 100\<rparr>)]"
    "sampleAddedChain 1200 = [sampleAdded ''0x04'' (Inr \<lparr>block_timestamp = 200\<rparr>)]"
    by (simp_all add: sampleAddedChain_def)
  ultimately show ?thesis by simp
qed

section \<open>Transparency of the chunked scan\<close>

text \<open>
  C2. The chunks the loop goes through, laid end to end, are the block range itself: no
  block is left out and none is queried twice. Each chunk runs from its first block to
  999 blocks further or to the end of the range, whichever comes first; every chunk but
  the last is 1000 blocks wide and the next starts on the following block. On a chain
  whose range queries answer with the events of the blocks asked for, the events of the
  chunks, taken in order, are the events of one query over the whole range; the request
  scan ends with the users of exactly these events and the chronicle scan, when no block
  read fails, with the chronicles of exactly these events, as one query over the whole
  range would have given them.
\<close>

theorem chunked_scan_transparent:
  "concat (map (\<lambda>(f, t). [f..t]) (chunks fromBlock toBlock)) = [fromBlock..toBlock] \<and>
   (\<forall>(f, t) \<in> set (chunks fromBlock toBlock). f \<le> t \<and> t = min (f + 999) toBlock) \<and>
   (\<forall>i. Suc i < length (chunks fromBlock toBlock) \<longrightarrow>
      snd (chunks fromBlock toBlock ! i) = fst (chunks fromBlock toBlock ! i) + 999 \<and>
      fst (chunks fromBlock toBlock ! Suc i) = snd (chunks fromBlock toBlock ! i) + 1) \<and>
   (\<forall>n. length (filter (\<lambda>(f, t). f \<le> n \<and> n \<le> t) (chunks fromBlock toBlock)) =
      (if fromBlock \<le> n \<and> n \<le> toBlock then 1 else 0)) \<and>
   concat (map (\<lambda>(f, t). eventsIn chain f t) (chunks fromBlock toBlock)) =
     eventsIn chain fromBlock toBlock \<and>
   (\<Union>(f, t) \<in> set (chunks fromBlock toBlock). set (eventsIn chain f t)) =
     set (eventsIn chain fromBlock toBlock) \<and>
   ((\<forall>f t. queryRequestSubmitted l f t = Inr (eventsIn requests f t)) \<longrightarrow>
      scanRequests l (chunks fromBlock toBlock) [] = scanRequests l [(fromBlock, toBlock)] [] \<and>
      scanRequests l (chunks fromBlock toBlock) [] =
        addUsers (eventsIn requests fromBlock toBlock) [] \<and>
      set (scanRequests l (chunks fromBlock toBlock) []) =
        usersOf (eventsIn requests fromBlock toBlock)) \<and>
   ((\<forall>f t. queryChronicleAdded l f t = Inr (eventsIn added f t)) \<and>
    (\<forall>n. \<forall>e \<in> set (added n). \<not> enrichmentFails e) \<longrightarrow>
      scanChronicles l (chunks fromBlock toBlock) [] = scanChronicles l [(fromBlock, toBlock)] [] \<and>
      scanChronicles l (chunks fromBlock toBlock) [] =
        storeChronicles (eventsIn added fromBlock toBlock) [] \<and>
      fst ` set (scanChronicles l (chunks fromBlock toBlock) []) =
        hashesOf (eventsIn added fromBlock toBlock) \<and>
      (\<forall>(k, c) \<in> set (scanChronicles l (chunks fromBlock toBlock) []).
         c_txHash c = k \<and>
         (\<exists>e \<in> set (eventsIn added fromBlock toBlock). chronicleOf e = Some c)))"
proof -
  let ?cs = "chunks fromBlock toBlock"
  have cover: "concat (map (\<lambda>(f, t). [f..t]) ?cs) = [fromBlock..toBlock]"
    by (rule chunks_cover)
  have width: "\<forall>(f, t) \<in> set ?cs. f \<le> t \<and> t = min (f + 999) toBlock"
    using chunks_bounds [of _ _ fromBlock toBlock] by blast
  have consecutive: "\<forall>i. Suc i < length ?cs \<longrightarrow>
      snd (?cs ! i) = fst (?cs ! i) + 999 \<and> fst (?cs ! Suc i) = snd (?cs ! i) + 1"
    using chunks_consecutive [of _ fromBlock toBlock] by blast
  have once: "\<forall>n. length (filter (\<lambda>(f, t). f \<le> n \<and> n \<le> t) ?cs) =
      (if fromBlock \<le> n \<and> n \<le> toBlock then 1 else 0)"
    using chunks_once [of _ fromBlock toBlock] by blast
  have events: "concat (map (\<lambda>(f, t). eventsIn chain f t) ?cs) = eventsIn chain fromBlock toBlock"
    by (rule eventsIn_chunks)
  have "set (concat (map (\<lambda>(f, t). eventsIn chain f t) ?cs)) =
        (\<Union>(f, t) \<in> set ?cs. set (eventsIn chain f t))"
    by auto
  then have union: "(\<Union>(f, t) \<in> set ?cs. set (eventsIn chain f t)) =
      set (eventsIn chain fromBlock toBlock)"
    unfolding events by simp
  have users: "scanRequests l ?cs [] = scanRequests l [(fromBlock, toBlock)] [] \<and>
      scanRequests l ?cs [] = addUsers (eventsIn requests fromBlock toBlock) [] \<and>
      set (scanRequests l ?cs []) = usersOf (eventsIn requests fromBlock toBlock)"
    if q: "\<forall>f t. queryRequestSubmitted l f t = Inr (eventsIn requests f t)"
  proof -
    have one: "scanRequests l ?cs [] = addUsers (eventsIn requests fromBlock toBlock) []"
      unfolding scanRequests_deterministic [OF q] eventsIn_chunks ..
    have "addUsers (eventsIn requests fromBlock toBlock) [] = scanRequests l [(fromBlock, toBlock)] []"
      using q by simp
    with one have same: "scanRequests l ?cs [] = scanRequests l [(fromBlock, toBlock)] []"
      by simp
    have "set (scanRequests l ?cs []) = usersOf (eventsIn requests fromBlock toBlock)"
      unfolding one by (simp add: set_addUsers)
    with one same show ?thesis by blast
  qed
  have stored: "scanChronicles l ?cs [] = scanChronicles l [(fromBlock, toBlock)] [] \<and>
      scanChronicles l ?cs [] = storeChronicles (eventsIn added fromBlock toBlock) [] \<and>
      fst ` set (scanChronicles l ?cs []) = hashesOf (eventsIn added fromBlock toBlock) \<and>
      (\<forall>(k, c) \<in> set (scanChronicles l ?cs []).
         c_txHash c = k \<and>
         (\<exists>e \<in> set (eventsIn added fromBlock toBlock). chronicleOf e = Some c))"
    if q: "(\<forall>f t. queryChronicleAdded l f t = Inr (eventsIn added f t)) \<and>
           (\<forall>n. \<forall>e \<in> set (added n). \<not> enrichmentFails e)"
  proof -
    from q have q1: "\<forall>f t. queryChronicleAdded l f t = Inr (eventsIn added f t)"
      and q2: "\<forall>n. \<forall>e \<in> set (added n). \<not> enrichmentFails e" by blast+
    have sound: "\<forall>e \<in> set (eventsIn added fromBlock toBlock). \<not> enrichmentFails e"
      using q2 by (auto simp: eventsIn_def)
    have one: "scanChronicles l ?cs [] = storeChronicles (eventsIn added fromBlock toBlock) []"
      unfolding scanChronicles_deterministic [OF q1 q2] eventsIn_chunks ..
    have "storeChronicles (eventsIn added fromBlock toBlock) [] =
          scanChronicles l [(fromBlock, toBlock)] []"
      using q1 by simp
    with one have same: "scanChronicles l ?cs [] = scanChronicles l [(fromBlock, toBlock)] []"
      by simp
    have keys: "fst ` set (scanChronicles l ?cs []) = hashesOf (eventsIn added fromBlock toBlock)"
      unfolding one using keys_storeChronicles_sound [OF sound, of "[]"] by simp
    have filed: "\<forall>(k, c) \<in> set (scanChronicles l ?cs []). c_txHash c = k"
      by (rule scanChronicles_keyed) simp
    have from_event: "\<exists>e \<in> set (eventsIn added fromBlock toBlock). chronicleOf e = Some c"
      if "(k, c) \<in> set (scanChronicles l ?cs [])" for k c
    proof -
      from that have "(k, c) \<in> set (storeChronicles (eventsIn added fromBlock toBlock) [])"
        unfolding one .
      from values_storeChronicles [OF this]
      obtain e where "e \<in> set (takeWhile (\<lambda>e. \<not> enrichmentFails e) (eventsIn added fromBlock toBlock))"
        and "chronicleOf e = Some c" by auto
      then show ?thesis by (auto dest: set_takeWhileD)
    qed
    from filed from_event
    have "\<forall>(k, c) \<in> set (scanChronicles l ?cs []).
         c_txHash c = k \<and>
         (\<exists>e \<in> set (eventsIn added fromBlock toBlock). chronicleOf e = Some c)"
      by blast
    with one same keys show ?thesis by blast
  qed
  show ?thesis
    apply (intro conjI)
    subgoal by (rule cover)
    subgoal by (rule width)
    subgoal by (rule consecutive)
    subgoal by (rule once)
    subgoal by (rule events)
    subgoal by (rule union)
    subgoal using users by blast
    subgoal using stored by blast
    done
qed

lemma chunks_until_2000:
  "chunks 0 2000 = [(0, 999), (1000, 1999), (2000, 2000)]"
proof -
  have a: "chunks 0 2000 = (0, 999) # chunks 1000 2000"
    using chunks_Cons [of 0 2000] by simp
  have b: "chunks 1000 2000 = (1000, 1999) # chunks 2000 2000"
    using chunks_Cons [of 1000 2000] by simp
  have c: "chunks 2000 2000 = (2000, 2000) # chunks 3000 2000"
    using chunks_Cons [of 2000 2000] by simp
  have d: "chunks 3000 2000 = []" by (rule chunks_Nil) simp
  show ?thesis unfolding a b c d ..
qed

theorem chunked_scan_transparent_witness:
  "chunks 0 2000 = [(0, 999), (1000, 1999), (2000, 2000)] \<and>
   (0, 999) \<in> set (chunks 0 2000) \<and>
   Suc 0 < length (chunks 0 2000) \<and>
   fst (chunks 0 2000 ! Suc 0) = snd (chunks 0 2000 ! 0) + 1 \<and>
   length (filter (\<lambda>(f, t). f \<le> 1000 \<and> 1000 \<le> t) (chunks 0 2000)) = 1 \<and>
   queryRequestSubmitted sampleLedger 0 999 = Inr (eventsIn sampleChain 0 999) \<and>
   queryChronicleAdded sampleLedger 1000 1999 = Inr (eventsIn sampleAddedChain 1000 1999) \<and>
   scanRequests sampleLedger (chunks 0 2000) [] = scanRequests sampleLedger [(0, 2000)] [] \<and>
   scanRequests sampleLedger (chunks 0 2000) [] = [''0xA'', ''0xB'', ''0xC''] \<and>
   set (scanRequests sampleLedger (chunks 0 2000) []) = {''0xA'', ''0xB'', ''0xC''} \<and>
   scanChronicles sampleLedger (chunks 0 2000) [] =
     [(''0x01'', sampleListed ''0x01'' 100), (''0x04'', sampleListed ''0x04'' 200)] \<and>
   fst ` set (scanChronicles sampleLedger (chunks 0 2000) []) = {''0x01'', ''0x04''}"
proof -
  note t = chunked_scan_transparent [of 0 2000 sampleChain sampleLedger sampleChain sampleAddedChain]
  have q: "\<forall>f t. queryRequestSubmitted sampleLedger f t = Inr (eventsIn sampleChain f t)"
    by (simp add: sampleLedger_def)
  have qa: "(\<forall>f t. queryChronicleAdded sampleLedger f t = Inr (eventsIn sampleAddedChain f t)) \<and>
            (\<forall>n. \<forall>e \<in> set (sampleAddedChain n). \<not> enrichmentFails e)"
    by (simp add: sampleLedger_def sampleAddedChain_def enrichmentFails_def sampleAdded_def)
  have i: "Suc 0 < length (chunks 0 2000)" unfolding chunks_until_2000 by simp
  have m: "(0, 999) \<in> set (chunks 0 2000)" unfolding chunks_until_2000 by simp
  note consecutive = t [THEN conjunct2, THEN conjunct2, THEN conjunct1, rule_format, OF i]
  note once = t [THEN conjunct2, THEN conjunct2, THEN conjunct2, THEN conjunct1, rule_format,
      of 1000]
  note users = t [THEN conjunct2, THEN conjunct2, THEN conjunct2, THEN conjunct2, THEN conjunct2,
      THEN conjunct2, THEN conjunct1, rule_format, OF q [rule_format]]
  note stored = t [THEN conjunct2, THEN conjunct2, THEN conjunct2, THEN conjunct2, THEN conjunct2,
      THEN conjunct2, THEN conjunct2, THEN mp, OF qa]
  have c: "fst (chunks 0 2000 ! Suc 0) = snd (chunks 0 2000 ! 0) + 1"
    using consecutive by simp
  have o: "length (filter (\<lambda>(f, t). f \<le> 1000 \<and> 1000 \<le> t) (chunks 0 2000)) = 1"
    using once by simp
  have u1: "scanRequests sampleLedger (chunks 0 2000) [] = scanRequests sampleLedger [(0, 2000)] []"
    using users by (rule conjunct1)
  have "addUsers (eventsIn sampleChain 0 2000) [] = [''0xA'', ''0xB'', ''0xC'']"
    unfolding eventsIn_sampleChain by (simp add: sampleRequest_def truthy_def setAdd_def)
  with users [THEN conjunct2, THEN conjunct1]
  have u2: "scanRequests sampleLedger (chunks 0 2000) [] = [''0xA'', ''0xB'', ''0xC'']"
    by (rule trans)
  have "usersOf (eventsIn sampleChain 0 2000) = {''0xA'', ''0xB'', ''0xC''}"
    unfolding eventsIn_sampleChain by (auto simp: sampleRequest_def truthy_def)
  with users [THEN conjunct2, THEN conjunct2]
  have u3: "set (scanRequests sampleLedger (chunks 0 2000) []) = {''0xA'', ''0xB'', ''0xC''}"
    by (rule trans)
  have "storeChronicles (eventsIn sampleAddedChain 0 2000) [] =
      [(''0x01'', sampleListed ''0x01'' 100), (''0x04'', sampleListed ''0x04'' 200)]"
    unfolding eventsIn_sampleAddedChain
    by (simp add: sampleAdded_def sampleListed_def truthy_def requesterA1_def)
  with stored [THEN conjunct2, THEN conjunct1]
  have s1: "scanChronicles sampleLedger (chunks 0 2000) [] =
      [(''0x01'', sampleListed ''0x01'' 100), (''0x04'', sampleListed ''0x04'' 200)]"
    by (rule trans)
  have "hashesOf (eventsIn sampleAddedChain 0 2000) = {''0x01'', ''0x04''}"
    unfolding eventsIn_sampleAddedChain
    by (auto simp: sampleAdded_def truthy_def requesterA1_def)
  with stored [THEN conjunct2, THEN conjunct2, THEN conjunct1]
  have s2: "fst ` set (scanChronicles sampleLedger (chunks 0 2000) []) = {''0x01'', ''0x04''}"
    by (rule trans)
  have q0: "queryRequestSubmitted sampleLedger 0 999 = Inr (eventsIn sampleChain 0 999)"
    using q by blast
  have q1: "queryChronicleAdded sampleLedger 1000 1999 = Inr (eventsIn sampleAddedChain 1000 1999)"
    using qa by blast
  show ?thesis
    apply (intro conjI)
    subgoal by (rule chunks_until_2000)
    subgoal by (rule m)
    subgoal by (rule i)
    subgoal by (rule c)
    subgoal by (rule o)
    subgoal by (rule q0)
    subgoal by (rule q1)
    subgoal by (rule u1)
    subgoal by (rule u2)
    subgoal by (rule u3)
    subgoal by (rule s1)
    subgoal by (rule s2)
    done
qed

section \<open>The replies of the two listings\<close>

lemma fetchPoints_address [simp]: "address (fetchPoints l a) = a"
  by (simp add: fetchPoints_def split: sum.splits)

lemma fetchPoints_returned:
  "userPoints l a = Inr p \<Longrightarrow> fetchPoints l a = \<lparr>address = a, points = Number p\<rparr>"
  by (simp add: fetchPoints_def)

lemma fetchPoints_positive:
  "0 < points (fetchPoints l a) \<Longrightarrow>
   \<exists>p. userPoints l a = Inr p \<and> points (fetchPoints l a) = Number p \<and> 0 < p"
proof (cases "userPoints l a")
  case (Inl err)
  assume "0 < points (fetchPoints l a)"
  with Inl show ?thesis by (simp add: fetchPoints_def)
next
  case (Inr p)
  assume "0 < points (fetchPoints l a)"
  with Inr have n: "0 < Number p" by (simp add: fetchPoints_def)
  have "p \<noteq> 0"
  proof
    assume "p = 0"
    then have "Number p = 0" by (simp add: Number_def)
    with n show False by simp
  qed
  with Inr n show ?thesis by (simp add: fetchPoints_def)
qed

lemma set_userAddressesOf:
  "set (userAddressesOf l currentBlock) =
     (\<Union>(f, t) \<in> set (chunks (max 0 (currentBlock - 10000)) currentBlock).
        case queryRequestSubmitted l f t of Inl err \<Rightarrow> {} | Inr events \<Rightarrow> usersOf events)"
  by (simp add: userAddressesOf_def set_scanRequests)

lemma distinct_userAddressesOf: "distinct (userAddressesOf l currentBlock)"
  unfolding userAddressesOf_def by (rule distinct_scanRequests) simp

text \<open>What is cut off a ranked list ranks no higher than what is kept.\<close>

lemma cut_keeps_best:
  assumes "sorted (map key ranked)" and "x \<in> set ranked" and "x \<notin> set (take n ranked)"
  shows "length (take n ranked) = n \<and> (\<forall>u \<in> set (take n ranked). key u \<le> key x)"
proof -
  have split: "ranked = take n ranked @ drop n ranked" by simp
  from assms(2,3) have x: "x \<in> set (drop n ranked)"
    by (metis Un_iff set_append split)
  then have "drop n ranked \<noteq> []" by auto
  then have len: "length (take n ranked) = n" by simp
  from assms(1) have "sorted (map key (take n ranked) @ map key (drop n ranked))"
    by (metis map_append split)
  then have "\<forall>a \<in> set (map key (take n ranked)). \<forall>b \<in> set (map key (drop n ranked)). a \<le> b"
    by (simp add: sorted_append)
  with x have "\<forall>u \<in> set (take n ranked). key u \<le> key x" by auto
  with len show ?thesis by simp
qed

lemma distinct_map_sort_key:
  "distinct (map f xs) \<Longrightarrow> distinct (map f (sort_key key xs))"
  by (simp add: distinct_map)

lemma getLeaderboard_listing:
  assumes b: "getBlockNumber l = Inr currentBlock"
  shows "\<exists>topUsers. getLeaderboard l = Success topUsers \<and>
     length topUsers \<le> 10 \<and>
     (\<forall>u \<in> set topUsers. 0 < points u) \<and>
     sorted_wrt (\<lambda>u v. points u \<ge> points v) topUsers \<and>
     distinct (map address topUsers) \<and>
     (\<forall>u \<in> set topUsers.
        address u \<in> (\<Union>(f, t) \<in> set (chunks (max 0 (currentBlock - 10000)) currentBlock).
                       case queryRequestSubmitted l f t of
                         Inl err \<Rightarrow> {} | Inr events \<Rightarrow> usersOf events) \<and>
        (\<exists>p. userPoints l (address u) = Inr p \<and> 0 < p \<and> points u = Number p \<and>
             (p \<le> 9007199254740992 \<longrightarrow> points u = p))) \<and>
     (\<forall>a p. a \<in> (\<Union>(f, t) \<in> set (chunks (max 0 (currentBlock - 10000)) currentBlock).
                     case queryRequestSubmitted l f t of
                       Inl err \<Rightarrow> {} | Inr events \<Rightarrow> usersOf events) \<and>
            userPoints l a = Inr p \<and> 0 < p \<and> a \<notin> address ` set topUsers \<longrightarrow>
            length topUsers = 10 \<and> (\<forall>u \<in> set topUsers. Number p \<le> points u))"
proof -
  define addrs where "addrs = userAddressesOf l currentBlock"
  define kept where "kept = filter (\<lambda>u. points u > 0) (map (fetchPoints l) addrs)"
  define ranked where "ranked = sort_key (\<lambda>u. - int (points u)) kept"
  define topUsers where "topUsers = take 10 ranked"
  have addrs: "set addrs =
      (\<Union>(f, t) \<in> set (chunks (max 0 (currentBlock - 10000)) currentBlock).
         case queryRequestSubmitted l f t of Inl err \<Rightarrow> {} | Inr events \<Rightarrow> usersOf events)"
    unfolding addrs_def by (rule set_userAddressesOf)
  have reply: "getLeaderboard l = Success topUsers"
    using b by (simp add: getLeaderboard_def Let_def topUsers_def ranked_def kept_def addrs_def)
  have ranked_set: "set ranked = set kept" by (simp add: ranked_def)
  have sub: "set topUsers \<subseteq> set kept"
    unfolding topUsers_def using set_take_subset [of 10 ranked] ranked_set by simp
  have kept: "0 < points u \<and> address u \<in> set addrs \<and>
      (\<exists>p. userPoints l (address u) = Inr p \<and> 0 < p \<and> points u = Number p \<and>
           (p \<le> 9007199254740992 \<longrightarrow> points u = p))"
    if "u \<in> set kept" for u
  proof -
    from that obtain a where a: "a \<in> set addrs" and u: "u = fetchPoints l a" and pos: "0 < points u"
      by (auto simp: kept_def)
    from fetchPoints_positive [of l a] pos u
    obtain p where p: "userPoints l a = Inr p" "points u = Number p" "0 < p" by auto
    have "p \<le> 9007199254740992 \<longrightarrow> points u = p"
      using p(2) by (simp add: Number_exact)
    with a pos p show ?thesis by (auto simp: u)
  qed
  have len: "length topUsers \<le> 10" unfolding topUsers_def by simp
  have sorted_keys: "sorted (map (\<lambda>u. - int (points u)) ranked)"
    unfolding ranked_def by (rule sorted_sort_key)
  then have "sorted_wrt (\<lambda>u v. - int (points u) \<le> - int (points v)) ranked"
    by (simp add: sorted_map)
  then have "sorted_wrt (\<lambda>u v. points u \<ge> points v) ranked"
    by (rule sorted_wrt_mono_rel [rotated]) simp
  then have ord: "sorted_wrt (\<lambda>u v. points u \<ge> points v) topUsers"
    unfolding topUsers_def by (rule sorted_wrt_take)
  have "distinct addrs" unfolding addrs_def by (rule distinct_userAddressesOf)
  moreover have "map address (map (fetchPoints l) addrs) = addrs"
    by (induction addrs) simp_all
  ultimately have "distinct (map address (map (fetchPoints l) addrs))" by simp
  then have "distinct (map address kept)"
    unfolding kept_def by (rule distinct_map_filter)
  then have "distinct (map address ranked)"
    unfolding ranked_def by (rule distinct_map_sort_key)
  then have dist: "distinct (map address topUsers)"
    unfolding topUsers_def take_map [symmetric] by (rule distinct_take)
  have cut: "length topUsers = 10 \<and> (\<forall>u \<in> set topUsers. Number p \<le> points u)"
    if "a \<in> set addrs" "userPoints l a = Inr p" "0 < p" "a \<notin> address ` set topUsers" for a p
  proof -
    let ?x = "fetchPoints l a"
    have x: "?x = \<lparr>address = a, points = Number p\<rparr>"
      by (rule fetchPoints_returned [OF that(2)])
    have "0 < points ?x" unfolding x using Number_positive [OF that(3)] by simp
    with that(1) have "?x \<in> set ranked" by (simp add: ranked_set kept_def)
    moreover have "?x \<notin> set (take 10 ranked)"
    proof
      assume "?x \<in> set (take 10 ranked)"
      then have "address ?x \<in> address ` set topUsers" unfolding topUsers_def by (rule imageI)
      with that(4) show False by simp
    qed
    ultimately have "length (take 10 ranked) = 10 \<and>
        (\<forall>u \<in> set (take 10 ranked). - int (points u) \<le> - int (points ?x))"
      using cut_keeps_best [OF sorted_keys] by blast
    then show ?thesis unfolding topUsers_def x by simp
  qed
  from sub kept have pos: "\<forall>u \<in> set topUsers. 0 < points u"
    and own: "\<forall>u \<in> set topUsers. address u \<in> set addrs \<and>
        (\<exists>p. userPoints l (address u) = Inr p \<and> 0 < p \<and> points u = Number p \<and>
             (p \<le> 9007199254740992 \<longrightarrow> points u = p))"
    by blast+
  from cut have cut': "\<forall>a p. a \<in> set addrs \<and> userPoints l a = Inr p \<and> 0 < p \<and>
      a \<notin> address ` set topUsers \<longrightarrow>
      length topUsers = 10 \<and> (\<forall>u \<in> set topUsers. Number p \<le> points u)"
    by blast
  show ?thesis
    apply (rule exI [of _ topUsers])
    apply (intro conjI)
    subgoal by (rule reply)
    subgoal by (rule len)
    subgoal by (rule pos)
    subgoal by (rule ord)
    subgoal by (rule dist)
    subgoal using own unfolding addrs .
    subgoal using cut' unfolding addrs .
    done
qed


text \<open>The sample ledgers, evaluated.\<close>

lemma chunks_at_0: "chunks 0 0 = [(0, 0)]"
proof -
  have "chunks 0 0 = (0, min (0 + 999) 0) # chunks (0 + 1000) 0"
    by (rule chunks_Cons) simp
  moreover have "chunks (0 + 1000) 0 = []" by (rule chunks_Nil) simp
  ultimately show ?thesis by simp
qed



lemma bitLength_sample: "bitLength 9007199254740993 = 54"
  by (simp add: bitLength.simps)

lemma Number_sample: "Number 9007199254740993 = 9007199254740992"
  using bitLength_sample by (simp add: Number_def Let_def)

lemma bigCounterLedger_leaderboard:
  "getLeaderboard bigCounterLedger =
     Success [\<lparr>address = ''0xA'', points = 9007199254740992\<rparr>]"
proof -
  have b: "getBlockNumber bigCounterLedger = Inr 0" by (simp add: bigCounterLedger_def)
  have u: "userAddressesOf bigCounterLedger 0 = [''0xA'']"
    by (simp add: userAddressesOf_def chunks_at_0 bigCounterLedger_def sampleRequest_def
        setAdd_def truthy_def)
  have p: "map (fetchPoints bigCounterLedger) [''0xA''] =
      [\<lparr>address = ''0xA'', points = 9007199254740992\<rparr>]"
    by (simp add: fetchPoints_def bigCounterLedger_def Number_sample)
  have "getLeaderboard bigCounterLedger =
      Success (take 10 (sort_key (\<lambda>u. - int (points u)) (filter (\<lambda>u. points u > 0)
        (map (fetchPoints bigCounterLedger) (userAddressesOf bigCounterLedger 0)))))"
    by (simp add: getLeaderboard_def b Let_def)
  then show ?thesis unfolding u p by simp
qed

lemma crowdedLedger_users:
  "userAddressesOf crowdedLedger 0 =
     [''0x01'', ''0x02'', ''0x03'', ''0x04'', ''0x05'', ''0x06'', ''0x07'', ''0x08'', ''0x09'',
      ''0x0A'', ''0x0B'', ''0x0C'', ''0x0D'']"
  by (simp add: userAddressesOf_def chunks_at_0 crowdedLedger_def crowdPoints_def
      sampleRequest_def setAdd_def truthy_def)

lemma crowdedLedger_leaderboard: "getLeaderboard crowdedLedger = Success crowdTop"
proof -
  have b: "getBlockNumber crowdedLedger = Inr 0" by (simp add: crowdedLedger_def)
  have p: "map (fetchPoints crowdedLedger)
      [''0x01'', ''0x02'', ''0x03'', ''0x04'', ''0x05'', ''0x06'', ''0x07'', ''0x08'', ''0x09'',
       ''0x0A'', ''0x0B'', ''0x0C'', ''0x0D''] =
      [\<lparr>address = ''0x01'', points = 5\<rparr>, \<lparr>address = ''0x02'', points = 120\<rparr>,
       \<lparr>address = ''0x03'', points = 7\<rparr>, \<lparr>address = ''0x04'', points = 0\<rparr>,
       \<lparr>address = ''0x05'', points = 33\<rparr>, \<lparr>address = ''0x06'', points = 64\<rparr>,
       \<lparr>address = ''0x07'', points = 12\<rparr>, \<lparr>address = ''0x08'', points = 90\<rparr>,
       \<lparr>address = ''0x09'', points = 1\<rparr>, \<lparr>address = ''0x0A'', points = 41\<rparr>,
       \<lparr>address = ''0x0B'', points = 28\<rparr>, \<lparr>address = ''0x0C'', points = 77\<rparr>,
       \<lparr>address = ''0x0D'', points = 15\<rparr>]"
    by (simp add: fetchPoints_def crowdedLedger_def crowdPoints_def Number_def)
  have "getLeaderboard crowdedLedger =
      Success (take 10 (sort_key (\<lambda>u. - int (points u)) (filter (\<lambda>u. points u > 0)
        (map (fetchPoints crowdedLedger) (userAddressesOf crowdedLedger 0)))))"
    by (simp add: getLeaderboard_def b Let_def)
  then show ?thesis unfolding crowdedLedger_users p by (simp add: crowdTop_def)
qed

lemma faultyLedger_chronicles:
  "getChronicles faultyLedger =
     Success \<lparr>total = 2, chronicles = [sampleListed ''0x04'' 200, sampleListed ''0x01'' 100]\<rparr>"
proof -
  have b: "getBlockNumber faultyLedger = Inr 2000" by (simp add: faultyLedger_def)
  have m: "chroniclesMapOf faultyLedger 2000 =
      [(''0x01'', sampleListed ''0x01'' 100), (''0x04'', sampleListed ''0x04'' 200)]"
    by (simp add: chroniclesMapOf_def chunks_until_2000 faultyLedger_def sampleAdded_def
        sampleListed_def truthy_def requesterA1_def)
  have "getChronicles faultyLedger =
      Success \<lparr>total = length (sort_key (\<lambda>c. - int (c_timestamp c))
                  (map snd (chroniclesMapOf faultyLedger 2000))),
               chronicles = sort_key (\<lambda>c. - int (c_timestamp c))
                  (map snd (chroniclesMapOf faultyLedger 2000))\<rparr>"
    by (simp add: getChronicles_def b Let_def)
  then show ?thesis unfolding m by (simp add: sampleListed_def)
qed

text \<open>
  C7, as the code has it. Whatever the ledger answers, a leaderboard that is returned has
  at most 10 entries, each with more than 0 points, in descending order of points, no
  address twice. The events only supply the addresses: each listed address is the user of
  an event of a chunk of the last 10000 blocks that could be queried. The points of an
  entry are \<^verbatim>\<open>Number\<close> of what \<^verbatim>\<open>userPoints\<close> returned for its address: the counter itself
  when it is at most \<open>2^53\<close>, the nearest double otherwise. The ten listed are the highest:
  a collected address with points that is not listed has no more points than any listed
  entry, and then the list is full.
\<close>

theorem getLeaderboard_top_ten:
  assumes "getLeaderboard l = Success topUsers"
  shows "length topUsers \<le> 10 \<and>
     (\<forall>u \<in> set topUsers. 0 < points u) \<and>
     sorted_wrt (\<lambda>u v. points u \<ge> points v) topUsers \<and>
     distinct (map address topUsers) \<and>
     (\<exists>currentBlock. getBlockNumber l = Inr currentBlock \<and>
        (\<forall>u \<in> set topUsers.
           address u \<in> (\<Union>(f, t) \<in> set (chunks (max 0 (currentBlock - 10000)) currentBlock).
                          case queryRequestSubmitted l f t of
                            Inl err \<Rightarrow> {} | Inr events \<Rightarrow> usersOf events) \<and>
           (\<exists>p. userPoints l (address u) = Inr p \<and> 0 < p \<and> points u = Number p \<and>
                (p \<le> 9007199254740992 \<longrightarrow> points u = p))) \<and>
        (\<forall>a p. a \<in> (\<Union>(f, t) \<in> set (chunks (max 0 (currentBlock - 10000)) currentBlock).
                        case queryRequestSubmitted l f t of
                          Inl err \<Rightarrow> {} | Inr events \<Rightarrow> usersOf events) \<and>
               userPoints l a = Inr p \<and> 0 < p \<and> a \<notin> address ` set topUsers \<longrightarrow>
               length topUsers = 10 \<and> (\<forall>u \<in> set topUsers. Number p \<le> points u)))"
proof -
  from assms obtain currentBlock where b: "getBlockNumber l = Inr currentBlock"
    by (cases "getBlockNumber l") (simp_all add: getLeaderboard_def)
  from getLeaderboard_listing [OF b] obtain listed where
    reply: "getLeaderboard l = Success listed" and
    len: "length listed \<le> 10" and
    pos: "\<forall>u \<in> set listed. 0 < points u" and
    ord: "sorted_wrt (\<lambda>u v. points u \<ge> points v) listed" and
    dist: "distinct (map address listed)" and
    own: "\<forall>u \<in> set listed.
           address u \<in> (\<Union>(f, t) \<in> set (chunks (max 0 (currentBlock - 10000)) currentBlock).
                          case queryRequestSubmitted l f t of
                            Inl err \<Rightarrow> {} | Inr events \<Rightarrow> usersOf events) \<and>
           (\<exists>p. userPoints l (address u) = Inr p \<and> 0 < p \<and> points u = Number p \<and>
                (p \<le> 9007199254740992 \<longrightarrow> points u = p))" and
    cut: "\<forall>a p. a \<in> (\<Union>(f, t) \<in> set (chunks (max 0 (currentBlock - 10000)) currentBlock).
                        case queryRequestSubmitted l f t of
                          Inl err \<Rightarrow> {} | Inr events \<Rightarrow> usersOf events) \<and>
               userPoints l a = Inr p \<and> 0 < p \<and> a \<notin> address ` set listed \<longrightarrow>
               length listed = 10 \<and> (\<forall>u \<in> set listed. Number p \<le> points u)"
    by blast
  from reply assms have same: "listed = topUsers" by simp
  show ?thesis
    apply (intro conjI)
    subgoal using len unfolding same .
    subgoal using pos unfolding same .
    subgoal using ord unfolding same .
    subgoal using dist unfolding same .
    subgoal
      apply (rule exI [of _ currentBlock])
      apply (intro conjI)
      subgoal by (rule b)
      subgoal using own unfolding same .
      subgoal using cut unfolding same .
      done
    done
qed

theorem getLeaderboard_top_ten_witness:
  "getLeaderboard crowdedLedger = Success crowdTop \<and>
   length crowdTop = 10 \<and>
   sorted_wrt (\<lambda>u v. points u \<ge> points v) crowdTop \<and>
   userPoints crowdedLedger ''0x01'' = Inr 5 \<and>
   ''0x01'' \<notin> address ` set crowdTop \<and>
   list_all (\<lambda>u. Number 5 \<le> points u) crowdTop \<and>
   list_all (\<lambda>u. 0 < points u) crowdTop"
proof -
  note t = getLeaderboard_top_ten [OF crowdedLedger_leaderboard]
  from t obtain currentBlock where b: "getBlockNumber crowdedLedger = Inr currentBlock"
    and cut: "\<forall>a p. a \<in> (\<Union>(f, t) \<in> set (chunks (max 0 (currentBlock - 10000)) currentBlock).
                        case queryRequestSubmitted crowdedLedger f t of
                          Inl err \<Rightarrow> {} | Inr events \<Rightarrow> usersOf events) \<and>
               userPoints crowdedLedger a = Inr p \<and> 0 < p \<and> a \<notin> address ` set crowdTop \<longrightarrow>
               length crowdTop = 10 \<and> (\<forall>u \<in> set crowdTop. Number p \<le> points u)"
    by blast
  from b have cb: "currentBlock = 0" by (simp add: crowdedLedger_def)
  have seen: "''0x01'' \<in> (\<Union>(f, t) \<in> set (chunks (max 0 (currentBlock - 10000)) currentBlock).
                        case queryRequestSubmitted crowdedLedger f t of
                          Inl err \<Rightarrow> {} | Inr events \<Rightarrow> usersOf events)"
    unfolding cb
    by (simp add: chunks_at_0 crowdedLedger_def crowdPoints_def sampleRequest_def truthy_def)
  have counter: "userPoints crowdedLedger ''0x01'' = Inr 5"
    by (simp add: crowdedLedger_def crowdPoints_def)
  have out: "''0x01'' \<notin> address ` set crowdTop" by (simp add: crowdTop_def)
  from cut seen counter out
  have full: "length crowdTop = 10 \<and> (\<forall>u \<in> set crowdTop. Number 5 \<le> points u)"
    by (metis zero_less_numeral)
  from t have ord: "sorted_wrt (\<lambda>u v. points u \<ge> points v) crowdTop"
    and pos: "\<forall>u \<in> set crowdTop. 0 < points u" by blast+
  from full pos have "list_all (\<lambda>u. Number 5 \<le> points u) crowdTop"
    and "list_all (\<lambda>u. 0 < points u) crowdTop"
    by (auto simp: list_all_iff)
  with crowdedLedger_leaderboard full ord counter out show ?thesis by blast
qed

text \<open>
  C7, as the specification has it, fails. The counter of the only user is \<open>2^53 + 1\<close>; the
  leaderboard lists the user with \<open>2^53\<close> points, one less than the counter.
\<close>

theorem getLeaderboard_rounded_counterexample:
  "userPoints bigCounterLedger ''0xA'' = Inr 9007199254740993 \<and>
   getLeaderboard bigCounterLedger =
     Success [\<lparr>address = ''0xA'', points = 9007199254740992\<rparr>] \<and>
   points \<lparr>address = ''0xA'', points = 9007199254740992\<rparr> \<noteq> 9007199254740993"
proof -
  have "userPoints bigCounterLedger ''0xA'' = Inr 9007199254740993"
    by (simp add: bigCounterLedger_def)
  moreover have "points \<lparr>address = ''0xA'', points = 9007199254740992\<rparr> \<noteq> 9007199254740993"
    by simp
  ultimately show ?thesis using bigCounterLedger_leaderboard by blast
qed




text \<open>
  C8, as the code has it. The loop over the events of a chunk has no handler of its own,
  so a block read that throws ends the chunk: the map keeps what the events before the
  failing one stored, and neither the failing event nor any later event of that chunk is
  stored. A chunk without such a failure stores every retained event. The chunks are
  independent of each other, and the reply lists the hashes of the map.
\<close>

theorem enrichment_failure_ends_chunk:
  "storeChronicles events m = storeChronicles (takeWhile (\<lambda>e. \<not> enrichmentFails e) events) m \<and>
   fst ` set (storeChronicles events m) =
     fst ` set m \<union> hashesOf (takeWhile (\<lambda>e. \<not> enrichmentFails e) events) \<and>
   ((\<forall>e \<in> set events. \<not> enrichmentFails e) \<longrightarrow>
      fst ` set (storeChronicles events m) = fst ` set m \<union> hashesOf events) \<and>
   fst ` set (scanChronicles l cs []) =
     (\<Union>(f, t) \<in> set cs.
        case queryChronicleAdded l f t of
          Inl err \<Rightarrow> {}
        | Inr events \<Rightarrow> hashesOf (takeWhile (\<lambda>e. \<not> enrichmentFails e) events)) \<and>
   (\<forall>currentBlock. getBlockNumber l = Inr currentBlock \<longrightarrow>
      (\<exists>listing. getChronicles l = Success listing \<and>
         total listing = length (chronicles listing) \<and>
         c_txHash ` set (chronicles listing) = fst ` set (chroniclesMapOf l currentBlock)))"
proof -
  have sound: "(\<forall>e \<in> set events. \<not> enrichmentFails e) \<longrightarrow>
      fst ` set (storeChronicles events m) = fst ` set m \<union> hashesOf events"
    using keys_storeChronicles_sound [of events m] by blast
  have keys: "fst ` set (scanChronicles l cs []) =
     (\<Union>(f, t) \<in> set cs.
        case queryChronicleAdded l f t of
          Inl err \<Rightarrow> {}
        | Inr events \<Rightarrow> hashesOf (takeWhile (\<lambda>e. \<not> enrichmentFails e) events))"
    by (simp add: keys_scanChronicles)
  show ?thesis
    apply (intro conjI allI impI)
    subgoal by (rule storeChronicles_until_failure)
    subgoal by (rule keys_storeChronicles)
    subgoal using sound by blast
    subgoal by (rule keys)
    subgoal by (rule getChronicles_listed)
    done
qed

theorem enrichment_failure_ends_chunk_witness:
  "enrichmentFails (sampleAdded ''0x02'' (Inl ''block not found'')) \<and>
   \<not> enrichmentFails (sampleAdded ''0x04'' (Inr \<lparr>block_timestamp = 200\<rparr>)) \<and>
   fst ` set (storeChronicles
     [sampleAdded ''0x01'' (Inr \<lparr>block_timestamp = 100\<rparr>),
      sampleAdded ''0x02'' (Inl ''block not found''),
      sampleAdded ''0x03'' (Inr \<lparr>block_timestamp = 300\<rparr>)] []) = {''0x01''} \<and>
   fst ` set (storeChronicles [sampleAdded ''0x04'' (Inr \<lparr>block_timestamp = 200\<rparr>)] []) = {''0x04''} \<and>
   getBlockNumber faultyLedger = Inr 2000 \<and>
   (\<exists>listing. getChronicles faultyLedger = Success listing \<and>
      c_txHash ` set (chronicles listing) = fst ` set (chroniclesMapOf faultyLedger 2000))"
proof -
  let ?e1 = "sampleAdded ''0x01'' (Inr \<lparr>block_timestamp = 100\<rparr>)"
  let ?e2 = "sampleAdded ''0x02'' (Inl ''block not found'')"
  let ?e3 = "sampleAdded ''0x03'' (Inr \<lparr>block_timestamp = 300\<rparr>)"
  let ?e4 = "sampleAdded ''0x04'' (Inr \<lparr>block_timestamp = 200\<rparr>)"
  have f2: "enrichmentFails ?e2"
    by (simp add: enrichmentFails_def retained_def sampleAdded_def truthy_def requesterA1_def)
  have f1: "\<not> enrichmentFails ?e1" and f4: "\<not> enrichmentFails ?e4"
    by (simp_all add: enrichmentFails_def sampleAdded_def)
  note t1 = enrichment_failure_ends_chunk [of "[?e1, ?e2, ?e3]" "[]" faultyLedger "[]"]
  note t4 = enrichment_failure_ends_chunk [of "[?e4]" "[]" faultyLedger "[]"]
  have "fst ` set [] \<union> hashesOf (takeWhile (\<lambda>e. \<not> enrichmentFails e) [?e1, ?e2, ?e3]) =
      {''0x01''}"
    using f1 f2 by (simp add: sampleAdded_def truthy_def requesterA1_def)
  with t1 [THEN conjunct2, THEN conjunct1]
  have a: "fst ` set (storeChronicles [?e1, ?e2, ?e3] []) = {''0x01''}"
    by (rule trans)
  have all: "\<forall>e \<in> set [?e4]. \<not> enrichmentFails e" using f4 by simp
  have "fst ` set [] \<union> hashesOf [?e4] = {''0x04''}"
    by (simp add: sampleAdded_def truthy_def requesterA1_def)
  with t4 [THEN conjunct2, THEN conjunct2, THEN conjunct1, rule_format, OF all [rule_format]]
  have d: "fst ` set (storeChronicles [?e4] []) = {''0x04''}"
    by (rule trans)
  have b: "getBlockNumber faultyLedger = Inr 2000" by (simp add: faultyLedger_def)
  from t1 [THEN conjunct2, THEN conjunct2, THEN conjunct2, THEN conjunct2, rule_format, OF b]
  have l: "\<exists>listing. getChronicles faultyLedger = Success listing \<and>
      c_txHash ` set (chronicles listing) = fst ` set (chroniclesMapOf faultyLedger 2000)"
    by blast
  from f2 f4 a d b l show ?thesis by blast
qed

text \<open>
  C8, as the specification has it, fails. In the first chunk of the sample ledger the
  block read of the second chronicle event throws; the third event of that chunk, whose
  own block read is sound, is missing from the reply along with the second.
\<close>

theorem enrichment_failure_counterexample:
  "queryChronicleAdded faultyLedger 0 999 =
     Inr [sampleAdded ''0x01'' (Inr \<lparr>block_timestamp = 100\<rparr>),
          sampleAdded ''0x02'' (Inl ''block not found''),
          sampleAdded ''0x03'' (Inr \<lparr>block_timestamp = 300\<rparr>)] \<and>
   retained (sampleAdded ''0x03'' (Inr \<lparr>block_timestamp = 300\<rparr>)) \<and>
   \<not> enrichmentFails (sampleAdded ''0x03'' (Inr \<lparr>block_timestamp = 300\<rparr>)) \<and>
   getChronicles faultyLedger =
     Success \<lparr>total = 2, chronicles = [sampleListed ''0x04'' 200, sampleListed ''0x01'' 100]\<rparr> \<and>
   ''0x03'' \<notin> c_txHash ` set [sampleListed ''0x04'' 200, sampleListed ''0x01'' 100]"
proof -
  have q: "queryChronicleAdded faultyLedger 0 999 =
     Inr [sampleAdded ''0x01'' (Inr \<lparr>block_timestamp = 100\<rparr>),
          sampleAdded ''0x02'' (Inl ''block not found''),
          sampleAdded ''0x03'' (Inr \<lparr>block_timestamp = 300\<rparr>)]"
    by (simp add: faultyLedger_def)
  have r: "retained (sampleAdded ''0x03'' (Inr \<lparr>block_timestamp = 300\<rparr>))"
    by (simp add: retained_def sampleAdded_def truthy_def requesterA1_def)
  have f: "\<not> enrichmentFails (sampleAdded ''0x03'' (Inr \<lparr>block_timestamp = 300\<rparr>))"
    by (simp add: enrichmentFails_def sampleAdded_def)
  have n: "''0x03'' \<notin> c_txHash ` set [sampleListed ''0x04'' 200, sampleListed ''0x01'' 100]"
    by (simp add: sampleListed_def)
  from q r f faultyLedger_chronicles n show ?thesis by blast
qed

end
